theory Spec2Isabelle
  imports Main "HOL-Library.Word" "HOL-Library.AList"
begin

section \<open>The nftables plugin: connection pool, recency cache, table cache, dispatcher\<close>

text \<open>
  A shallow embedding of \<^verbatim>\<open>nftables.go\<close> (the handler: \<^verbatim>\<open>ServeWorker\<close>,
  \<^verbatim>\<open>ServeDNS\<close>) and of the cache file (\<^verbatim>\<open>NewCache\<close>, \<^verbatim>\<open>CloseCache\<close>,
  \<^verbatim>\<open>LruIgnoreIp\<close>, \<^verbatim>\<open>LruUpdateIp\<close>, \<^verbatim>\<open>gc\<close>, \<^verbatim>\<open>MutableNftablesTable\<close>).
  Go's mutation of package variables and of the objects behind pointers is explicit state
  passing. Logging and metrics are left out: they change nothing that the functions read.
\<close>

subsection \<open>Basic types\<close>

text \<open>Go's \<^verbatim>\<open>int\<close> on a 64-bit platform: addition wraps, comparison is signed.\<close>

type_synonym goint = "64 word"

text \<open>A Go \<^verbatim>\<open>error\<close> value; \<^verbatim>\<open>nil\<close> is \<open>None\<close> of \<open>error option\<close>.\<close>

type_synonym error = string

text \<open>
  \<^verbatim>\<open>time.Time\<close> is an instant and \<^verbatim>\<open>time.Duration\<close> a signed 64-bit count, both in
  nanoseconds. \<^verbatim>\<open>Time.Sub\<close> saturates at the largest and smallest duration;
  \<^verbatim>\<open>time.Since(t)\<close> is \<^verbatim>\<open>time.Now().Sub(t)\<close>, with the reading of the clock an argument.
\<close>

type_synonym time = int
type_synonym duration = int

definition maxDuration :: duration where
  "maxDuration = 2 ^ 63 - 1"

definition minDuration :: duration where
  "minDuration = - (2 ^ 63)"

definition time_Sub :: "time \<Rightarrow> time \<Rightarrow> duration" where
  "time_Sub t u =
     (if t - u > maxDuration then maxDuration
      else if t - u < minDuration then minDuration
      else t - u)"

definition time_Since :: "time \<Rightarrow> time \<Rightarrow> duration" where
  "time_Since now t = time_Sub now t"

definition time_After :: "time \<Rightarrow> time \<Rightarrow> bool" where
  "time_After t u = (t > u)"

definition time_Add :: "time \<Rightarrow> duration \<Rightarrow> time" where
  "time_Add t d = t + d"

text \<open>\<^verbatim>\<open>nftables.TableFamily\<close>: the constants that \<^verbatim>\<open>GetFamilyName\<close> lists.\<close>

datatype TableFamily =
    TableFamilyUnspecified
  | TableFamilyINet
  | TableFamilyIPv4
  | TableFamilyIPv6
  | TableFamilyARP
  | TableFamilyNetdev
  | TableFamilyBridge

text \<open>
  An answer record \<^verbatim>\<open>dns.RR\<close>: the owner name of its header and, by \<^verbatim>\<open>Header().Rrtype\<close>,
  an address record of type A or AAAA, carrying the text that \<^verbatim>\<open>A.String()\<close> or
  \<^verbatim>\<open>AAAA.String()\<close> prints for its address, or a record of any other type.
\<close>

datatype RR =
    RR_A string string
  | RR_AAAA string string
  | RR_Other string

text \<open>The package variables that the \<^verbatim>\<open>Set...\<close> functions assign.\<close>

record config =
  cacheExpiredDuration :: duration
  setLruMaxRetryTimes :: goint
  setLruMaxCount :: goint
  setLruTimeout :: duration
  asyncMode :: bool

definition default_config :: config where
  "default_config =
     \<lparr> cacheExpiredDuration = 5 * 60 * 1000000000,
       setLruMaxRetryTimes = 2147483647,
       setLruMaxCount = 10000,
       setLruTimeout = 720 * 3600 * 1000000000,
       asyncMode = False \<rparr>"

subsection \<open>The bounded least-recently-used map\<close>

record NftableIPCache =
  ExpireTime :: time
  ApplyCount :: goint

text \<open>
  Modelled from the spec: the capacity-bounded, least-recently-used-ordered map of the
  recency entries, \<^verbatim>\<open>lru.Cache\<close> of the library \<^verbatim>\<open>hashicorp/golang-lru\<close>, whose code is
  not among the sources. The entries are kept in access order, the most recently used
  first; the key of an entry is the address text. \<^verbatim>\<open>Get\<close> moves the entry it finds to
  the front; \<^verbatim>\<open>Add\<close> of an absent key puts the entry at the front and, when the map
  then holds more than its capacity, drops the last one; \<^verbatim>\<open>GetOldest\<close> reads the last
  entry and \<^verbatim>\<open>RemoveOldest\<close> drops it; \<^verbatim>\<open>New\<close> fails for a capacity that is not
  positive, which leaves the caller with a nil cache.
\<close>

record lru =
  lru_size :: nat
  lru_items :: "(string \<times> NftableIPCache) list"

definition lru_New :: "goint \<Rightarrow> lru option" where
  "lru_New n =
     (if sint n \<le> 0 then None
      else Some \<lparr> lru_size = nat (sint n), lru_items = [] \<rparr>)"

definition lru_touch :: "string \<Rightarrow> NftableIPCache \<Rightarrow> lru \<Rightarrow> lru" where
  "lru_touch k v c =
     c\<lparr>lru_items := (k, v) # filter (\<lambda>e. fst e \<noteq> k) (lru_items c)\<rparr>"

definition lru_Get :: "string \<Rightarrow> lru \<Rightarrow> NftableIPCache option \<times> lru" where
  "lru_Get k c =
     (case map_of (lru_items c) k of
        None \<Rightarrow> (None, c)
      | Some v \<Rightarrow> (Some v, lru_touch k v c))"

definition lru_Len :: "lru \<Rightarrow> nat" where
  "lru_Len c = length (lru_items c)"

definition lru_GetOldest :: "lru \<Rightarrow> (string \<times> NftableIPCache) option" where
  "lru_GetOldest c = (if lru_items c = [] then None else Some (last (lru_items c)))"

definition lru_RemoveOldest :: "lru \<Rightarrow> lru" where
  "lru_RemoveOldest c = c\<lparr>lru_items := butlast (lru_items c)\<rparr>"

definition lru_Add :: "string \<Rightarrow> NftableIPCache \<Rightarrow> lru \<Rightarrow> lru" where
  "lru_Add k v c =
     (case map_of (lru_items c) k of
        Some old \<Rightarrow> lru_touch k v c
      | None \<Rightarrow>
          (let c1 = c\<lparr>lru_items := (k, v) # lru_items c\<rparr>
           in if length (lru_items c1) > lru_size c1 then lru_RemoveOldest c1 else c1))"

text \<open>
  The values of the map are pointers \<^verbatim>\<open>*NftableIPCache\<close>: an assignment through the
  pointer that \<^verbatim>\<open>Get\<close> returned changes the object stored under that key, in place.
\<close>

definition lru_assign :: "string \<Rightarrow> (NftableIPCache \<Rightarrow> NftableIPCache) \<Rightarrow> lru \<Rightarrow> lru" where
  "lru_assign k f c =
     c\<lparr>lru_items := map (\<lambda>e. if fst e = k then (fst e, f (snd e)) else e) (lru_items c)\<rparr>"

subsection \<open>The pooled connection and its recency cache\<close>

text \<open>
  A call on the connection \<^verbatim>\<open>*nftables.Conn\<close>. The connection is modelled by the history
  of the calls made on it; what the engine answers is an argument of the calling function.
\<close>

record Table =
  Name :: string
  Family :: TableFamily

datatype nft_call =
    ListTablesOfFamily TableFamily
  | AddTable Table
  | Flush

text \<open>\<^verbatim>\<open>NftableCache\<close>: a table and, by set name and element, the expiry times.\<close>

record NftableCache =
  table :: Table
  setCache :: "(string \<times> (string \<times> time) list) list"

text \<open>
  \<^verbatim>\<open>NftablesCache\<close>. \<open>self\<close> is the address of the object, the identity that the
  pool's list of pointers holds. \<open>tables\<close> gives for a family the map from table names,
  an association list; \<open>None\<close> is a family without an entry. \<open>recentlyIPCache\<close> is
  \<open>None\<close> for the nil pointer. \<^verbatim>\<open>NetworkNamespace\<close> is always 0.
\<close>

record NftablesCache =
  self :: nat
  tables :: "TableFamily \<Rightarrow> (string \<times> NftableCache) list option"
  recentlyIPCache :: "lru option"
  CreateTimepoint :: time
  NftableConnection :: "nft_call list"
  HasNftableConnectionError :: bool

definition LruIgnoreIp :: "config \<Rightarrow> RR \<Rightarrow> NftablesCache \<Rightarrow> bool \<times> NftablesCache" where
  "LruIgnoreIp cfg answer cache =
     (case recentlyIPCache cache of
        None \<Rightarrow> (False, cache)
      | Some c \<Rightarrow>
          (case (case answer of
                   RR_A name a \<Rightarrow> Some a
                 | RR_AAAA name a \<Rightarrow> Some a
                 | RR_Other name \<Rightarrow> None) of
             None \<Rightarrow> (False, cache)
           | Some ip \<Rightarrow>
               if length ip = 0 then (False, cache)
               else
                 (case lru_Get ip c of
                    (Some v, c') \<Rightarrow>
                      (word_sle (setLruMaxRetryTimes cfg) (ApplyCount v),
                       cache\<lparr>recentlyIPCache := Some c'\<rparr>)
                  | (None, c') \<Rightarrow> (False, cache\<lparr>recentlyIPCache := Some c'\<rparr>))))"

definition LruUpdateIp :: "config \<Rightarrow> time \<Rightarrow> RR \<Rightarrow> goint \<Rightarrow> NftablesCache \<Rightarrow> NftablesCache" where
  "LruUpdateIp cfg now answer rulesCounter cache =
     (case recentlyIPCache cache of
        None \<Rightarrow> cache
      | Some c \<Rightarrow>
          (case (case answer of
                   RR_A name a \<Rightarrow> Some a
                 | RR_AAAA name a \<Rightarrow> Some a
                 | RR_Other name \<Rightarrow> None) of
             None \<Rightarrow> cache
           | Some ip \<Rightarrow>
               if length ip = 0 then cache
               else
                 (case lru_Get ip c of
                    (Some v, c') \<Rightarrow>
                      cache\<lparr>recentlyIPCache :=
                        Some (lru_assign ip (\<lambda>e. e\<lparr>ApplyCount := ApplyCount e + 1\<rparr>) c')\<rparr>
                  | (None, c') \<Rightarrow>
                      cache\<lparr>recentlyIPCache :=
                        Some (lru_Add ip
                                \<lparr> ExpireTime = time_Add now (setLruTimeout cfg),
                                  ApplyCount = 1 \<rparr> c')\<rparr>)))"

text \<open>The loop of \<^verbatim>\<open>gc\<close>; each turn that goes on has removed one entry.\<close>

function gc_loop :: "time \<Rightarrow> lru \<Rightarrow> lru" where
  "gc_loop now c =
     (if lru_Len c \<noteq> 0 then
        (case lru_GetOldest c of
           None \<Rightarrow> c
         | Some (k, v) \<Rightarrow>
             if time_After (ExpireTime v) now then c
             else gc_loop now (lru_RemoveOldest c))
      else c)"
  by pat_completeness auto
termination
  by (relation "measure (\<lambda>(now, c). length (lru_items c))")
     (auto simp: lru_Len_def lru_RemoveOldest_def)

declare gc_loop.simps [simp del]

definition gc :: "time \<Rightarrow> NftablesCache \<Rightarrow> NftablesCache" where
  "gc now cache =
     (case recentlyIPCache cache of
        None \<Rightarrow> cache
      | Some c \<Rightarrow> cache\<lparr>recentlyIPCache := Some (gc_loop now c)\<rparr>)"

text \<open>
  The entry that the recency cache of a connection holds for an address, read without
  touching the access order; and the address text of a record.
\<close>

definition recency_entry :: "NftablesCache \<Rightarrow> string \<Rightarrow> NftableIPCache option" where
  "recency_entry cache ip =
     (case recentlyIPCache cache of
        None \<Rightarrow> None
      | Some c \<Rightarrow> map_of (lru_items c) ip)"

fun rr_ip :: "RR \<Rightarrow> string option" where
  "rr_ip (RR_A name a) = Some a"
| "rr_ip (RR_AAAA name a) = Some a"
| "rr_ip (RR_Other name) = None"

subsection \<open>The table cache\<close>

text \<open>
  \<^verbatim>\<open>MutableNftablesTable\<close>. \<open>listed\<close> is what \<^verbatim>\<open>ListTablesOfFamily\<close> answers if it is
  called (\<open>None\<close> for the nil slice) and \<open>added\<close> what \<^verbatim>\<open>AddTable\<close> returns for a table.
  The model returns the entry and the connection as the call leaves it.
\<close>

definition MutableNftablesTable ::
  "Table list option \<Rightarrow> (Table \<Rightarrow> Table) \<Rightarrow> TableFamily \<Rightarrow> string \<Rightarrow> NftablesCache
     \<Rightarrow> NftableCache \<times> NftablesCache" where
  "MutableNftablesTable listed added family tableName cache =
     (let cache1 = (case tables cache family of
                      None \<Rightarrow> cache\<lparr>tables := (tables cache)(family \<mapsto> [])\<rparr>
                    | Some tableSet \<Rightarrow> cache);
          tableSet1 = (case tables cache family of None \<Rightarrow> [] | Some tableSet \<Rightarrow> tableSet);
          tableSet2 =
            (if length tableSet1 = 0 then
               (case listed of
                  None \<Rightarrow> tableSet1
                | Some found \<Rightarrow>
                    fold (\<lambda>t ts. AList.update (Name t) \<lparr> table = t, setCache = [] \<rparr> ts)
                      found tableSet1)
             else tableSet1);
          cache2 =
            (if length tableSet1 = 0 then
               cache1\<lparr>tables := (tables cache1)(family \<mapsto> tableSet2),
                      NftableConnection := NftableConnection cache1 @ [ListTablesOfFamily family]\<rparr>
             else cache1)
      in case map_of tableSet2 tableName of
           Some tableCache \<Rightarrow> (tableCache, cache2)
         | None \<Rightarrow>
             (let t = \<lparr> Name = tableName, Family = family \<rparr>;
                  tableCache = \<lparr> table = added t, setCache = [] \<rparr>
              in (tableCache,
                  cache2\<lparr>tables := (tables cache2)(family \<mapsto>
                                      AList.update tableName tableCache tableSet2),
                         NftableConnection := NftableConnection cache2 @ [AddTable t]\<rparr>)))"

subsection \<open>The handler, the message and the history of events\<close>

text \<open>
  Of a rule \<^verbatim>\<open>NftablesSetAddElement\<close> the sources read the names of its table and set;
  \<^verbatim>\<open>Rules\<close> of the handler maps a family to its rule set, \<open>None\<close> for a family without
  one. Of a message \<^verbatim>\<open>dns.Msg\<close> the code reads the answer section.
\<close>

record NftablesSetAddElement =
  TableName :: string
  SetName :: string

record NftablesRuleSet =
  RuleAddElement :: "NftablesSetAddElement list"

record NftablesHandler =
  Rules :: "TableFamily \<Rightarrow> NftablesRuleSet option"

record Msg =
  Answer :: "RR list"

text \<open>
  What the code does, in the order it does it: a teardown spawned with \<^verbatim>\<open>go\<close> or called
  (with the address of the connection), an attempt to open a connection, a flush of a
  connection with its outcome, a rule applier invoked with its result, the two calls on
  the recency cache, the response written, the dispatch pass spawned in the background.
\<close>

datatype event =
    Go_destroy nat
  | Call_destroy nat
  | Call_openSystemNFTConn
  | Call_Flush nat "error option"
  | Call_LruIgnoreIp RR bool
  | Call_ServeDNS NftablesSetAddElement TableFamily RR "error option" bool
  | Call_LruUpdateIp RR goint
  | Call_WriteMsg Msg
  | Go_ServeWorker Msg

text \<open>
  The state of the process: \<^verbatim>\<open>cacheList\<close>, the pool, front first; the next address that
  a new \<^verbatim>\<open>NftablesCache\<close> gets; the number of readings of the clock taken so far, where
  the clock is a function \<open>clk\<close> from that number to the time read, so that a function
  may find the time advanced at each reading (a reading that the code does not take on
  some path is passed over); and the history of events.
\<close>

record sys =
  cacheList :: "NftablesCache list"
  next_self :: nat
  tick :: nat
  trace :: "event list"

definition init_sys :: sys where
  "init_sys = \<lparr> cacheList = [], next_self = 0, tick = 0, trace = [] \<rparr>"

subsection \<open>The connection pool\<close>

text \<open>
  The loop of \<^verbatim>\<open>NewCache\<close> under the lock, by recursion on the queue it pops. It takes
  one reading of the clock for each entry popped, and \<^verbatim>\<open>gc\<close> takes one more.
\<close>

fun NewCache_loop ::
  "config \<Rightarrow> (nat \<Rightarrow> time) \<Rightarrow> NftablesCache list \<Rightarrow> sys \<Rightarrow> NftablesCache option \<times> sys" where
  "NewCache_loop cfg clk [] s = (None, s\<lparr>cacheList := []\<rparr>)"
| "NewCache_loop cfg clk (cacheHead # rest) s =
     (if time_Since (clk (tick s)) (CreateTimepoint cacheHead) > cacheExpiredDuration cfg
      then NewCache_loop cfg clk rest
             (s\<lparr>cacheList := rest, tick := Suc (tick s),
                trace := trace s @ [Go_destroy (self cacheHead)]\<rparr>)
      else (Some (gc (clk (Suc (tick s))) cacheHead),
            s\<lparr>cacheList := rest, tick := Suc (Suc (tick s))\<rparr>))"

text \<open>
  \<^verbatim>\<open>NewCache\<close>. \<open>opened\<close> is the error of \<^verbatim>\<open>openSystemNFTConn\<close> if it is called,
  \<open>None\<close> for a connection established.
\<close>

definition NewCache ::
  "config \<Rightarrow> (nat \<Rightarrow> time) \<Rightarrow> error option \<Rightarrow> sys \<Rightarrow> (error + NftablesCache) \<times> sys" where
  "NewCache cfg clk opened s =
     (case NewCache_loop cfg clk (cacheList s) s of
        (Some cacheHead, s1) \<Rightarrow> (Inr cacheHead, s1)
      | (None, s1) \<Rightarrow>
          (let s2 = s1\<lparr>trace := trace s1 @ [Call_openSystemNFTConn]\<rparr>
           in case opened of
                Some err \<Rightarrow> (Inl err, s2)
              | None \<Rightarrow>
                  (Inr \<lparr> self = next_self s2,
                         tables = Map.empty,
                         recentlyIPCache = lru_New (setLruMaxCount cfg),
                         CreateTimepoint = clk (tick s2),
                         NftableConnection = [],
                         HasNftableConnectionError = False \<rparr>,
                   s2\<lparr>next_self := Suc (next_self s2), tick := Suc (tick s2)\<rparr>)))"

text \<open>
  \<^verbatim>\<open>CloseCache\<close>. \<open>flushed\<close> is the error of \<^verbatim>\<open>Flush\<close>. The error that the function
  returns is always nil and is left out.
\<close>

definition CloseCache ::
  "config \<Rightarrow> (nat \<Rightarrow> time) \<Rightarrow> error option \<Rightarrow> NftablesCache \<Rightarrow> sys \<Rightarrow> sys" where
  "CloseCache cfg clk flushed cache s =
     (let cache1 = cache\<lparr>NftableConnection := NftableConnection cache @ [Flush]\<rparr>;
          s1 = s\<lparr>trace := trace s @ [Call_Flush (self cache) flushed]\<rparr>;
          cache2 = (if flushed \<noteq> None then cache1\<lparr>HasNftableConnectionError := True\<rparr>
                    else cache1)
      in if HasNftableConnectionError cache2 then
           s1\<lparr>trace := trace s1 @ [Call_destroy (self cache2)]\<rparr>
         else if time_Since (clk (tick s1)) (CreateTimepoint cache2) > cacheExpiredDuration cfg then
           s1\<lparr>tick := Suc (tick s1), trace := trace s1 @ [Call_destroy (self cache2)]\<rparr>
         else
           s1\<lparr>tick := Suc (tick s1), cacheList := cacheList s1 @ [cache2]\<rparr>)"

fun ClearCache_loop :: "NftablesCache list \<Rightarrow> sys \<Rightarrow> sys" where
  "ClearCache_loop [] s = s\<lparr>cacheList := []\<rparr>"
| "ClearCache_loop (cacheHead # rest) s =
     ClearCache_loop rest
       (s\<lparr>cacheList := rest, trace := trace s @ [Go_destroy (self cacheHead)]\<rparr>)"

definition ClearCache :: "sys \<Rightarrow> sys" where
  "ClearCache s = ClearCache_loop (cacheList s) s"

subsection \<open>The dispatcher\<close>

text \<open>
  The method \<^verbatim>\<open>ServeDNS\<close> of a rule (\<^verbatim>\<open>NftablesSetAddElement\<close>) is not among the
  sources: it is an argument \<open>ap\<close> of the dispatcher. It is given the rule, the record,
  the family and the connection, which it may change, and returns the error and the flag
  that it ignored the record.
\<close>

type_synonym applier =
  "NftablesSetAddElement \<Rightarrow> RR \<Rightarrow> TableFamily \<Rightarrow> NftablesCache
     \<Rightarrow> (error option \<times> bool) \<times> NftablesCache"

text \<open>The switch on the record type in \<^verbatim>\<open>ServeWorker\<close>, which sets \<^verbatim>\<open>tableFamilies\<close>.\<close>

definition resolve_families ::
  "config \<Rightarrow> RR \<Rightarrow> NftablesCache \<times> sys \<Rightarrow> TableFamily list option \<times> NftablesCache \<times> sys" where
  "resolve_families cfg answer st =
     (case st of (cache, s) \<Rightarrow>
        (case answer of
           RR_A name a \<Rightarrow>
             (case LruIgnoreIp cfg answer cache of (ignore, cache1) \<Rightarrow>
                (if ignore then None
                 else Some [TableFamilyIPv4, TableFamilyINet, TableFamilyBridge],
                 cache1, s\<lparr>trace := trace s @ [Call_LruIgnoreIp answer ignore]\<rparr>))
         | RR_AAAA name a \<Rightarrow>
             (case LruIgnoreIp cfg answer cache of (ignore, cache1) \<Rightarrow>
                (if ignore then None
                 else Some [TableFamilyIPv6, TableFamilyINet, TableFamilyBridge],
                 cache1, s\<lparr>trace := trace s @ [Call_LruIgnoreIp answer ignore]\<rparr>))
         | RR_Other name \<Rightarrow> (None, cache, s)))"

text \<open>
  The two inner loops: over the rules of a family and over the families. The state of
  the loops is \<^verbatim>\<open>hasError\<close>, \<^verbatim>\<open>applyCounter\<close>, the connection and the process.
\<close>

fun serve_rules ::
  "applier \<Rightarrow> RR \<Rightarrow> TableFamily \<Rightarrow> NftablesSetAddElement list
     \<Rightarrow> bool \<times> goint \<times> NftablesCache \<times> sys \<Rightarrow> bool \<times> goint \<times> NftablesCache \<times> sys" where
  "serve_rules ap answer family [] st = st"
| "serve_rules ap answer family (rule # rest) (hasError, applyCounter, cache, s) =
     (case ap rule answer family cache of ((err, ignored), cache1) \<Rightarrow>
        (let s1 = s\<lparr>trace := trace s @ [Call_ServeDNS rule family answer err ignored]\<rparr>
         in serve_rules ap answer family rest
              (if err \<noteq> None then (True, applyCounter, cache1, s1)
               else if \<not> ignored then (hasError, applyCounter + 1, cache1, s1)
               else (hasError, applyCounter, cache1, s1))))"

fun serve_families ::
  "applier \<Rightarrow> NftablesHandler \<Rightarrow> RR \<Rightarrow> TableFamily list
     \<Rightarrow> bool \<times> goint \<times> NftablesCache \<times> sys \<Rightarrow> bool \<times> goint \<times> NftablesCache \<times> sys" where
  "serve_families ap m answer [] st = st"
| "serve_families ap m answer (family # rest) st =
     (case Rules m family of
        Some ruleSet \<Rightarrow>
          serve_families ap m answer rest
            (serve_rules ap answer family (RuleAddElement ruleSet) st)
      | None \<Rightarrow> serve_families ap m answer rest st)"

text \<open>One turn of the loop over \<^verbatim>\<open>r.Answer\<close>.\<close>

definition ServeWorker_answer ::
  "config \<Rightarrow> (nat \<Rightarrow> time) \<Rightarrow> applier \<Rightarrow> NftablesHandler \<Rightarrow> RR
     \<Rightarrow> NftablesCache \<times> sys \<Rightarrow> NftablesCache \<times> sys" where
  "ServeWorker_answer cfg clk ap m answer st =
     (case resolve_families cfg answer st of
        (None, cache1, s1) \<Rightarrow> (cache1, s1)
      | (Some tableFamilies, cache1, s1) \<Rightarrow>
          (case serve_families ap m answer tableFamilies (False, 0, cache1, s1) of
             (hasError, applyCounter, cache2, s2) \<Rightarrow>
               if \<not> hasError then
                 (LruUpdateIp cfg (clk (tick s2)) answer applyCounter cache2,
                  s2\<lparr>tick := Suc (tick s2),
                     trace := trace s2 @ [Call_LruUpdateIp answer applyCounter]\<rparr>)
               else (cache2, s2)))"

text \<open>
  \<^verbatim>\<open>ServeWorker\<close>: the connection is acquired, the answers are served in order, and the
  deferred \<^verbatim>\<open>CloseCache\<close> releases the connection. The function returns the error of
  \<^verbatim>\<open>NewCache\<close>, which is nil whenever the loop has run.
\<close>

definition ServeWorker ::
  "config \<Rightarrow> (nat \<Rightarrow> time) \<Rightarrow> applier \<Rightarrow> error option \<Rightarrow> error option
     \<Rightarrow> NftablesHandler \<Rightarrow> Msg \<Rightarrow> sys \<Rightarrow> error option \<times> sys" where
  "ServeWorker cfg clk ap opened flushed m r s =
     (case NewCache cfg clk opened s of
        (Inl err, s1) \<Rightarrow> (Some err, s1)
      | (Inr cache, s1) \<Rightarrow>
          (case fold (ServeWorker_answer cfg clk ap m) (Answer r) (cache, s1) of
             (cache2, s2) \<Rightarrow> (None, CloseCache cfg clk flushed cache2 s2)))"

subsection \<open>The entry point\<close>

definition RcodeSuccess :: int where
  "RcodeSuccess = 0"

definition RcodeFormatError :: int where
  "RcodeFormatError = 1"

definition RcodeServerFailure :: int where
  "RcodeServerFailure = 2"

fun hasValidRecord :: "RR list \<Rightarrow> bool" where
  "hasValidRecord [] = False"
| "hasValidRecord (answer # rest) =
     (case answer of
        RR_A name a \<Rightarrow> True
      | RR_AAAA name a \<Rightarrow> True
      | RR_Other name \<Rightarrow> hasValidRecord rest)"

text \<open>
  \<^verbatim>\<open>ServeDNS\<close> of the handler. \<open>next_plugin\<close> is what the rest of the plugin chain
  returned: the code, the error and the message that the recording writer caught, if
  any. \<open>written\<close> is the error of \<^verbatim>\<open>w.WriteMsg\<close>. In asynchronous mode the dispatch
  pass is spawned and runs apart from this call: the model records that it was spawned.
\<close>

definition ServeDNS ::
  "config \<Rightarrow> (nat \<Rightarrow> time) \<Rightarrow> applier \<Rightarrow> error option \<Rightarrow> error option \<Rightarrow> error option
     \<Rightarrow> NftablesHandler \<Rightarrow> int \<times> error option \<times> Msg option \<Rightarrow> sys
     \<Rightarrow> (int \<times> error option) \<times> sys" where
  "ServeDNS cfg clk ap opened flushed written m next_plugin s =
     (case next_plugin of (rcode, err, msg) \<Rightarrow>
        if err \<noteq> None then ((rcode, err), s)
        else
          (case msg of
             None \<Rightarrow> ((RcodeFormatError, Some ''no answer received''), s)
           | Some r \<Rightarrow>
               if \<not> hasValidRecord (Answer r) then
                 (let s1 = s\<lparr>trace := trace s @ [Call_WriteMsg r]\<rparr>
                  in if written \<noteq> None then ((RcodeFormatError, written), s1)
                     else ((RcodeSuccess, None), s1))
               else if asyncMode cfg then
                 (let s1 = s\<lparr>trace := trace s @ [Call_WriteMsg r, Go_ServeWorker r]\<rparr>
                  in if written \<noteq> None then ((RcodeServerFailure, written), s1)
                     else ((rcode, None), s1))
               else
                 (case ServeWorker cfg clk ap opened flushed m r s of
                    (failed, s1) \<Rightarrow>
                      ((rcode, None), s1\<lparr>trace := trace s1 @ [Call_WriteMsg r]\<rparr>))))"

subsection \<open>Reading the history\<close>

text \<open>
  An event is a rule applier that returned an error; one that returned no error and did
  not ignore the record; a call of \<^verbatim>\<open>LruUpdateIp\<close>; a rule applier invoked for the given
  record, for one of the given families and with a rule that the handler configures for
  that family.
\<close>

fun applier_failed :: "event \<Rightarrow> bool" where
  "applier_failed (Call_ServeDNS rule family answer err ignored) = (err \<noteq> None)"
| "applier_failed ev = False"

fun applier_applied :: "event \<Rightarrow> bool" where
  "applier_applied (Call_ServeDNS rule family answer err ignored) = (err = None \<and> \<not> ignored)"
| "applier_applied ev = False"

fun is_LruUpdateIp :: "event \<Rightarrow> bool" where
  "is_LruUpdateIp (Call_LruUpdateIp answer n) = True"
| "is_LruUpdateIp ev = False"

fun applier_call :: "NftablesHandler \<Rightarrow> RR \<Rightarrow> TableFamily list \<Rightarrow> event \<Rightarrow> bool" where
  "applier_call m answer families (Call_ServeDNS rule family answer' err ignored) =
     (answer' = answer \<and> family \<in> set families \<and>
      (case Rules m family of
         None \<Rightarrow> False
       | Some ruleSet \<Rightarrow> rule \<in> set (RuleAddElement ruleSet)))"
| "applier_call m answer families ev = False"

subsection \<open>Runs of the pool\<close>

text \<open>
  A run of the pool is a sequence of calls by the workers of the process: \<^verbatim>\<open>NewCache\<close>
  with the outcome of opening a connection, \<^verbatim>\<open>CloseCache\<close> of a connection with the
  outcome of the flush, \<^verbatim>\<open>ClearCache\<close>. A worker releases a connection that it holds,
  once (\<^verbatim>\<open>ServeWorker\<close> defers \<^verbatim>\<open>CloseCache\<close> of the connection it acquired), in whatever
  state its dispatch pass left the caches and the error flag of the connection: \<open>held\<close>
  lists the addresses of the connections that workers hold, and a run that releases a
  connection which no worker holds is not a run of the program (\<open>None\<close>). The result
  lists the connections that the calls of \<^verbatim>\<open>NewCache\<close> returned, in order.
\<close>

datatype pool_call =
    Acquire "error option"
  | Release NftablesCache "error option"
  | Clear

fun pool_run ::
  "config \<Rightarrow> (nat \<Rightarrow> time) \<Rightarrow> pool_call list \<Rightarrow> nat list \<Rightarrow> sys
     \<Rightarrow> (NftablesCache list \<times> nat list \<times> sys) option" where
  "pool_run cfg clk [] held s = Some ([], held, s)"
| "pool_run cfg clk (Acquire opened # calls) held s =
     (case NewCache cfg clk opened s of
        (Inl err, s1) \<Rightarrow> pool_run cfg clk calls held s1
      | (Inr cache, s1) \<Rightarrow>
          (case pool_run cfg clk calls (self cache # held) s1 of
             None \<Rightarrow> None
           | Some (got, held', s') \<Rightarrow> Some (cache # got, held', s')))"
| "pool_run cfg clk (Release cache flushed # calls) held s =
     (if self cache \<in> set held
      then pool_run cfg clk calls (remove1 (self cache) held) (CloseCache cfg clk flushed cache s)
      else None)"
| "pool_run cfg clk (Clear # calls) held s = pool_run cfg clk calls held (ClearCache s)"

text \<open>
  The invariant of a run: no address is held twice, held and pooled, or pooled twice, and
  every address handed out so far is below the next one.
\<close>

definition pool_inv :: "nat list \<Rightarrow> sys \<Rightarrow> bool" where
  "pool_inv held s =
     (distinct (held @ map self (cacheList s)) \<and>
      (\<forall>p\<in>set held \<union> self ` set (cacheList s). p < next_self s))"

subsection \<open>Concrete inputs\<close>

text \<open>
  A configuration with a threshold of two attempts, and a connection whose recency cache
  of capacity two holds an entry for \<^verbatim>\<open>1.2.3.4\<close>, used last, and an older one for \<^verbatim>\<open>::1\<close>.
\<close>

definition retry2_config :: config where
  "retry2_config = default_config\<lparr>setLruMaxRetryTimes := 2\<rparr>"

definition ex_lru :: lru where
  "ex_lru =
     \<lparr> lru_size = 2,
       lru_items = [(''1.2.3.4'', \<lparr> ExpireTime = 100, ApplyCount = 2 \<rparr>),
                    (''::1'', \<lparr> ExpireTime = 50, ApplyCount = 1 \<rparr>)] \<rparr>"

definition ex_cache :: NftablesCache where
  "ex_cache =
     \<lparr> self = 0, tables = Map.empty, recentlyIPCache = Some ex_lru, CreateTimepoint = 10,
       NftableConnection = [], HasNftableConnectionError = False \<rparr>"

text \<open>
  A pool time to live of 100 ns and a clock that reads 1000, 1001, ...; a pool of three
  connections created at 10, 950 and 20; the connection that \<^verbatim>\<open>NewCache\<close> creates at
  address \<open>p\<close> and time \<open>t\<close> under the default configuration, and the state in which a
  worker holds the first of them.
\<close>

definition ttl100_config :: config where
  "ttl100_config = default_config\<lparr>cacheExpiredDuration := 100\<rparr>"

definition ex_clk :: "nat \<Rightarrow> time" where
  "ex_clk n = 1000 + int n"

definition ex_pool :: sys where
  "ex_pool =
     \<lparr> cacheList = [ex_cache, ex_cache\<lparr>self := 1, CreateTimepoint := 950\<rparr>,
                    ex_cache\<lparr>self := 2, CreateTimepoint := 20\<rparr>],
       next_self = 3, tick = 0, trace = [] \<rparr>"

definition ex_conn :: "nat \<Rightarrow> time \<Rightarrow> NftablesCache" where
  "ex_conn p t =
     \<lparr> self = p, tables = Map.empty, recentlyIPCache = lru_New 10000, CreateTimepoint = t,
       NftableConnection = [], HasNftableConnectionError = False \<rparr>"

definition ex_held :: sys where
  "ex_held = \<lparr> cacheList = [], next_self = 1, tick = 1, trace = [Call_openSystemNFTConn] \<rparr>"

text \<open>
  A handler with one rule for the IPv4 family and one for the inet family, an applier
  that fails for the rule whose table is missing and marks the connection, as
  \<^verbatim>\<open>SetAddElements\<close> does, and an answer record.
\<close>

definition rule_ok :: NftablesSetAddElement where
  "rule_ok = \<lparr> TableName = ''filter'', SetName = ''dns4'' \<rparr>"

definition rule_bad :: NftablesSetAddElement where
  "rule_bad = \<lparr> TableName = ''missing'', SetName = ''dns4'' \<rparr>"

definition ex_applier :: applier where
  "ex_applier rule answer family cache =
     (if TableName rule = ''missing''
      then ((Some ''ENOENT'', False), cache\<lparr>HasNftableConnectionError := True\<rparr>)
      else ((None, False), cache))"

definition ex_handler :: "NftablesSetAddElement \<Rightarrow> NftablesHandler" where
  "ex_handler rule =
     \<lparr> Rules = (\<lambda>family.
         if family = TableFamilyIPv4 then Some \<lparr> RuleAddElement = [rule_ok] \<rparr>
         else if family = TableFamilyINet then Some \<lparr> RuleAddElement = [rule] \<rparr>
         else None) \<rparr>"

definition ex_answer :: RR where
  "ex_answer = RR_A ''a.example.'' ''1.2.3.4''"

section \<open>Properties\<close>

subsection \<open>The recency cache\<close>

lemma map_of_filter_other:
  "x \<noteq> k \<Longrightarrow> map_of (filter (\<lambda>e. fst e \<noteq> k) xs) x = map_of xs x"
  by (induction xs) auto

lemma map_of_lru_touch:
  "map_of (lru_items c) k = Some v \<Longrightarrow> map_of (lru_items (lru_touch k v c)) = map_of (lru_items c)"
  by (rule ext) (simp add: lru_touch_def map_of_filter_other)

text \<open>
  C4: \<^verbatim>\<open>LruIgnoreIp\<close> returns true if and only if the recency cache holds an entry for the
  address of the record and the attempt counter of the entry is at least the configured
  threshold, in Go's signed comparison; with no entry, or a counter below the threshold, it
  returns false. The address text of a record is never empty in Go (\<^verbatim>\<open>IP.String()\<close> prints
  \<^verbatim>\<open><nil>\<close> for an empty address), which the function checks all the same.
\<close>

theorem LruIgnoreIp_iff:
  "fst (LruIgnoreIp cfg answer cache) =
     (\<exists>ip e. rr_ip answer = Some ip \<and> ip \<noteq> [] \<and> recency_entry cache ip = Some e \<and>
        word_sle (setLruMaxRetryTimes cfg) (ApplyCount e))"
  by (cases answer)
     (auto simp: LruIgnoreIp_def recency_entry_def lru_Get_def split: option.splits)

theorem LruIgnoreIp_iff_witness:
  "fst (LruIgnoreIp retry2_config (RR_A ''a.example.'' ''1.2.3.4'') ex_cache) \<and>
   \<not> fst (LruIgnoreIp retry2_config (RR_AAAA ''a.example.'' ''::1'') ex_cache) \<and>
   \<not> fst (LruIgnoreIp retry2_config (RR_A ''a.example.'' ''5.6.7.8'') ex_cache)"
  using LruIgnoreIp_iff [of retry2_config "RR_A ''a.example.'' ''1.2.3.4''" ex_cache]
    LruIgnoreIp_iff [of retry2_config "RR_AAAA ''a.example.'' ''::1''" ex_cache]
    LruIgnoreIp_iff [of retry2_config "RR_A ''a.example.'' ''5.6.7.8''" ex_cache]
  by (simp add: retry2_config_def default_config_def ex_cache_def ex_lru_def recency_entry_def
        word_sle_eq)


lemma LruUpdateIp_existing:
  assumes "rr_ip answer = Some ip" and "ip \<noteq> []" and "recency_entry cache ip = Some e"
  shows "recency_entry (LruUpdateIp cfg now answer n cache) ip =
           Some (e\<lparr>ApplyCount := ApplyCount e + 1\<rparr>)"
  using assms
  by (cases answer)
     (auto simp: LruUpdateIp_def recency_entry_def lru_Get_def lru_touch_def lru_assign_def
           split: option.splits)

lemma LruUpdateIp_absent:
  assumes "rr_ip answer = Some ip" and "ip \<noteq> []"
    and "recentlyIPCache cache = Some c" and "0 < lru_size c"
    and "recency_entry cache ip = None"
  shows "recency_entry (LruUpdateIp cfg now answer n cache) ip =
           Some \<lparr> ExpireTime = time_Add now (setLruTimeout cfg), ApplyCount = 1 \<rparr>"
  using assms
  by (cases answer; cases "lru_items c")
     (auto simp: LruUpdateIp_def recency_entry_def lru_Get_def lru_Add_def
           lru_RemoveOldest_def Let_def split: option.splits)

lemma LruUpdateIp_fold_existing:
  assumes "rr_ip answer = Some ip" and "ip \<noteq> []"
  shows "recency_entry cache ip = Some e \<Longrightarrow>
         recency_entry (fold (\<lambda>(now, n). LruUpdateIp cfg now answer n) calls cache) ip =
           Some (e\<lparr>ApplyCount := ApplyCount e + of_nat (length calls)\<rparr>)"
proof (induction calls arbitrary: cache e)
  case Nil
  then show ?case by simp
next
  case (Cons a calls)
  obtain now n where a: "a = (now, n)" by (cases a)
  have "recency_entry (LruUpdateIp cfg now answer n cache) ip =
          Some (e\<lparr>ApplyCount := ApplyCount e + 1\<rparr>)"
    using LruUpdateIp_existing [OF assms Cons.prems] .
  from Cons.IH [OF this] show ?case
    by (simp add: a add.assoc add.commute)
qed

lemma sint_of_nat_goint:
  assumes "n < 2 ^ 63"
  shows "sint (of_nat n :: goint) = int n"
proof -
  have "- (2 ^ 63) \<le> int n"
    by (rule order_trans [of _ 0]) simp_all
  moreover have "int n < 2 ^ 63"
    using assms by (metis of_nat_less_iff of_nat_numeral of_nat_power)
  ultimately show ?thesis
    by (simp add: signed_of_nat signed_take_bit_int_eq_self)
qed

text \<open>
  C3: for the address of an address record, \<^verbatim>\<open>LruUpdateIp\<close> on an entry that exists adds
  exactly one to its attempt counter, whatever the counter \<open>n\<close> of applied rules, and
  leaves its expiry time as it was. For an address without an entry, on a connection
  that has a recency cache (of a positive capacity, as \<^verbatim>\<open>lru.New\<close> makes it), it inserts an
  entry that expires at the time read plus the timeout, with the counter at one; and
  after the calls \<open>(now, n) # calls\<close> in sequence for that address, with nothing else done
  to the cache in between, the entry still expires at the first reading plus the timeout
  and its counter is the number of calls (as a Go \<^verbatim>\<open>int\<close>, hence that number itself below
  \<open>2 ^ 63\<close>).
\<close>

theorem LruUpdateIp_counts:
  assumes "rr_ip answer = Some ip" and "ip \<noteq> []"
  shows "(\<forall>e. recency_entry cache ip = Some e \<longrightarrow>
            recency_entry (LruUpdateIp cfg now answer n cache) ip =
              Some (e\<lparr>ApplyCount := ApplyCount e + 1\<rparr>)) \<and>
         (\<forall>c. recentlyIPCache cache = Some c \<and> 0 < lru_size c \<and>
              recency_entry cache ip = None \<longrightarrow>
            recency_entry (LruUpdateIp cfg now answer n cache) ip =
              Some \<lparr> ExpireTime = time_Add now (setLruTimeout cfg), ApplyCount = 1 \<rparr> \<and>
            (\<exists>e. recency_entry
                    (fold (\<lambda>(now', n'). LruUpdateIp cfg now' answer n') ((now, n) # calls) cache) ip =
                   Some e \<and>
                 ExpireTime e = time_Add now (setLruTimeout cfg) \<and>
                 ApplyCount e = of_nat (length ((now, n) # calls)) \<and>
                 (length ((now, n) # calls) < 2 ^ 63 \<longrightarrow>
                    sint (ApplyCount e) = int (length ((now, n) # calls)))))"
proof (intro conjI allI impI)
  fix e assume "recency_entry cache ip = Some e"
  then show "recency_entry (LruUpdateIp cfg now answer n cache) ip =
               Some (e\<lparr>ApplyCount := ApplyCount e + 1\<rparr>)"
    using assms by (simp add: LruUpdateIp_existing)
next
  fix c assume "recentlyIPCache cache = Some c \<and> 0 < lru_size c \<and> recency_entry cache ip = None"
  then show "recency_entry (LruUpdateIp cfg now answer n cache) ip =
               Some \<lparr> ExpireTime = time_Add now (setLruTimeout cfg), ApplyCount = 1 \<rparr>"
    using assms by (simp add: LruUpdateIp_absent)
next
  fix c assume c: "recentlyIPCache cache = Some c \<and> 0 < lru_size c \<and> recency_entry cache ip = None"
  let ?first = "\<lparr> ExpireTime = time_Add now (setLruTimeout cfg), ApplyCount = 1 \<rparr>"
  let ?e = "?first\<lparr>ApplyCount := ApplyCount ?first + of_nat (length calls)\<rparr>"
  have first: "recency_entry (LruUpdateIp cfg now answer n cache) ip = Some ?first"
    using assms c by (simp add: LruUpdateIp_absent)
  have all: "recency_entry
               (fold (\<lambda>(now', n'). LruUpdateIp cfg now' answer n') ((now, n) # calls) cache) ip =
             Some ?e"
    using LruUpdateIp_fold_existing [OF assms first, of cfg calls] by simp
  have count: "ApplyCount ?e = of_nat (length ((now, n) # calls))"
    by simp
  have "length ((now, n) # calls) < 2 ^ 63 \<longrightarrow>
          sint (ApplyCount ?e) = int (length ((now, n) # calls))"
    unfolding count by (auto simp only: sint_of_nat_goint)
  with all count
  show "\<exists>e. recency_entry
               (fold (\<lambda>(now', n'). LruUpdateIp cfg now' answer n') ((now, n) # calls) cache) ip =
              Some e \<and>
            ExpireTime e = time_Add now (setLruTimeout cfg) \<and>
            ApplyCount e = of_nat (length ((now, n) # calls)) \<and>
            (length ((now, n) # calls) < 2 ^ 63 \<longrightarrow>
               sint (ApplyCount e) = int (length ((now, n) # calls)))"
    by (intro exI [of _ ?e]) simp
qed

theorem LruUpdateIp_counts_witness:
  "recency_entry (LruUpdateIp default_config 7 (RR_A ''a.example.'' ''1.2.3.4'') 0 ex_cache)
     ''1.2.3.4'' = Some \<lparr> ExpireTime = 100, ApplyCount = 3 \<rparr> \<and>
   recency_entry (LruUpdateIp default_config 7 (RR_A ''a.example.'' ''5.6.7.8'') 9 ex_cache)
     ''5.6.7.8'' = Some \<lparr> ExpireTime = 2592000000000007, ApplyCount = 1 \<rparr> \<and>
   (\<exists>e. recency_entry
          (fold (\<lambda>(now', n'). LruUpdateIp default_config now' (RR_A ''a.example.'' ''5.6.7.8'') n')
             [(7, 9), (8, 0), (9, 1)] ex_cache) ''5.6.7.8'' = Some e \<and>
        ExpireTime e = 2592000000000007 \<and> sint (ApplyCount e) = 3)"
  using LruUpdateIp_counts [of "RR_A ''a.example.'' ''1.2.3.4''" "''1.2.3.4''" ex_cache
      default_config 7 0 "[]"]
    LruUpdateIp_counts [of "RR_A ''a.example.'' ''5.6.7.8''" "''5.6.7.8''" ex_cache
      default_config 7 9 "[(8, 0), (9, 1)]"]
  by (simp add: ex_cache_def ex_lru_def recency_entry_def default_config_def time_Add_def)
     blast

lemma gc_loop_items:
  "lru_items (gc_loop now c) =
     rev (dropWhile (\<lambda>e. ExpireTime (snd e) \<le> now) (rev (lru_items c)))"
proof (induction now c rule: gc_loop.induct)
  case (1 now c)
  show ?case
  proof (cases "lru_items c = []")
    case True
    then show ?thesis
      by (simp add: gc_loop.simps [of now c] lru_Len_def)
  next
    case False
    then obtain xs x where xs: "lru_items c = xs @ [x]"
      by (metis rev_exhaust)
    obtain k v where x: "x = (k, v)"
      by (cases x)
    have oldest: "lru_GetOldest c = Some (k, v)"
      by (simp add: lru_GetOldest_def xs x)
    have len: "lru_Len c \<noteq> 0"
      by (simp add: lru_Len_def xs)
    show ?thesis
    proof (cases "time_After (ExpireTime v) now")
      case True
      then show ?thesis
        by (simp add: gc_loop.simps [of now c] len oldest xs x time_After_def)
    next
      case False
      have "lru_items (gc_loop now (lru_RemoveOldest c)) =
              rev (dropWhile (\<lambda>e. ExpireTime (snd e) \<le> now)
                     (rev (lru_items (lru_RemoveOldest c))))"
        using "1.IH" [OF len oldest refl False] .
      moreover have "gc_loop now c = gc_loop now (lru_RemoveOldest c)"
        using False by (simp add: gc_loop.simps [of now c] len oldest)
      ultimately show ?thesis
        using False by (simp add: lru_RemoveOldest_def xs x time_After_def)
    qed
  qed
qed

lemma gc_loop_size: "lru_size (gc_loop now c) = lru_size c"
proof (induction now c rule: gc_loop.induct)
  case (1 now c)
  then show ?case
    by (subst gc_loop.simps) (auto simp: lru_RemoveOldest_def split: option.splits)
qed

lemma rev_dropWhile_rest:
  "\<exists>ys. xs = rev (dropWhile P (rev xs)) @ ys \<and> (\<forall>y\<in>set ys. P y)"
proof -
  have "rev xs = takeWhile P (rev xs) @ dropWhile P (rev xs)"
    by simp
  then have "xs = rev (dropWhile P (rev xs)) @ rev (takeWhile P (rev xs))"
    by (metis rev_append rev_rev_ident)
  moreover have "\<forall>y\<in>set (rev (takeWhile P (rev xs))). P y"
    by (auto dest: set_takeWhileD)
  ultimately show ?thesis by blast
qed

lemma last_rev_dropWhile:
  "rev (dropWhile P (rev xs)) \<noteq> [] \<Longrightarrow> \<not> P (last (rev (dropWhile P (rev xs))))"
  by (metis hd_dropWhile last_rev rev_is_Nil_conv)

text \<open>
  C9: \<^verbatim>\<open>gc\<close> terminates (the loop is a total function) and removes from the end of the
  least recently used exactly the entries \<open>evicted\<close>, each of which has reached its expiry
  time; the entries \<open>kept\<close> are as they were, in their order, and the least recently used
  of them, if there is one, expires after the time read. A connection without a recency
  cache is left as it is.
\<close>

theorem gc_evicts_expired:
  "(recentlyIPCache cache = None \<longrightarrow> gc now cache = cache) \<and>
   (\<forall>c. recentlyIPCache cache = Some c \<longrightarrow>
      (\<exists>kept evicted.
         gc now cache = cache\<lparr>recentlyIPCache := Some (c\<lparr>lru_items := kept\<rparr>)\<rparr> \<and>
         lru_items c = kept @ evicted \<and>
         (\<forall>e\<in>set evicted. ExpireTime (snd e) \<le> now) \<and>
         (kept \<noteq> [] \<longrightarrow> now < ExpireTime (snd (last kept))) \<and>
         kept = rev (dropWhile (\<lambda>e. ExpireTime (snd e) \<le> now) (rev (lru_items c)))))"
proof (intro conjI allI impI)
  assume "recentlyIPCache cache = None"
  then show "gc now cache = cache"
    by (simp add: gc_def)
next
  fix c assume c: "recentlyIPCache cache = Some c"
  let ?P = "\<lambda>e. ExpireTime (snd e) \<le> now"
  let ?kept = "rev (dropWhile ?P (rev (lru_items c)))"
  have "gc_loop now c = c\<lparr>lru_items := ?kept\<rparr>"
    by (rule lru.equality) (simp_all add: gc_loop_items gc_loop_size)
  then have run: "gc now cache = cache\<lparr>recentlyIPCache := Some (c\<lparr>lru_items := ?kept\<rparr>)\<rparr>"
    by (simp add: gc_def c)
  obtain evicted where ev: "lru_items c = ?kept @ evicted" "\<forall>e\<in>set evicted. ?P e"
    using rev_dropWhile_rest [of "lru_items c" ?P] by blast
  have "?kept \<noteq> [] \<longrightarrow> now < ExpireTime (snd (last ?kept))"
  proof
    assume "?kept \<noteq> []"
    from last_rev_dropWhile [OF this] show "now < ExpireTime (snd (last ?kept))"
      by (simp only: not_le)
  qed
  with run ev
  show "\<exists>kept evicted.
          gc now cache = cache\<lparr>recentlyIPCache := Some (c\<lparr>lru_items := kept\<rparr>)\<rparr> \<and>
          lru_items c = kept @ evicted \<and>
          (\<forall>e\<in>set evicted. ExpireTime (snd e) \<le> now) \<and>
          (kept \<noteq> [] \<longrightarrow> now < ExpireTime (snd (last kept))) \<and>
          kept = rev (dropWhile (\<lambda>e. ExpireTime (snd e) \<le> now) (rev (lru_items c)))"
    by blast
qed

theorem gc_evicts_expired_witness:
  "gc 50 ex_cache =
     ex_cache\<lparr>recentlyIPCache :=
       Some (ex_lru\<lparr>lru_items := [(''1.2.3.4'', \<lparr> ExpireTime = 100, ApplyCount = 2 \<rparr>)]\<rparr>)\<rparr> \<and>
   gc 49 ex_cache = ex_cache \<and>
   gc 100 ex_cache = ex_cache\<lparr>recentlyIPCache := Some (ex_lru\<lparr>lru_items := []\<rparr>)\<rparr>"
  using gc_evicts_expired [of ex_cache 50] gc_evicts_expired [of ex_cache 49]
    gc_evicts_expired [of ex_cache 100]
  by (auto simp add: ex_cache_def ex_lru_def)

subsection \<open>The table cache\<close>

lemma MutableNftablesTable_cached:
  assumes "MutableNftablesTable listed added family tableName cache = (h, cache')"
  shows "\<exists>ts. tables cache' family = Some ts \<and> map_of ts tableName = Some h"
  using assms
  by (auto simp: MutableNftablesTable_def Let_def update_conv' split: option.splits if_splits)

lemma MutableNftablesTable_hit:
  assumes "tables cache family = Some ts" and "map_of ts tableName = Some h"
  shows "MutableNftablesTable listed added family tableName cache = (h, cache)"
proof -
  from assms(2) have "ts \<noteq> []" by auto
  with assms show ?thesis
    by (simp add: MutableNftablesTable_def Let_def)
qed

lemma MutableNftablesTable_calls:
  assumes "MutableNftablesTable listed added family tableName cache = (h, cache')"
  shows "\<exists>new. NftableConnection cache' = NftableConnection cache @ new \<and>
           (new = [] \<or> new = [ListTablesOfFamily family] \<or>
            new = [AddTable \<lparr> Name = tableName, Family = family \<rparr>] \<or>
            new = [ListTablesOfFamily family, AddTable \<lparr> Name = tableName, Family = family \<rparr>])"
  using assms
  by (auto simp: MutableNftablesTable_def Let_def split: option.splits if_splits)

text \<open>
  C8: two calls of \<^verbatim>\<open>MutableNftablesTable\<close> in sequence on one connection for the same
  family and table name, whatever the engine would answer: the second call returns the
  entry that the first returned, which is the entry cached under that family and name,
  and leaves the connection exactly as the first left it, so it makes no call on the
  engine; the calls of the two together are at most one listing of the family followed by
  at most one creation of the table.
\<close>

theorem MutableNftablesTable_twice:
  assumes "MutableNftablesTable listed added family tableName cache = (h1, cache1)"
    and "MutableNftablesTable listed' added' family tableName cache1 = (h2, cache2)"
  shows "h2 = h1 \<and> cache2 = cache1 \<and>
         (\<exists>ts. tables cache1 family = Some ts \<and> map_of ts tableName = Some h1) \<and>
         (\<exists>new. NftableConnection cache2 = NftableConnection cache @ new \<and>
            (new = [] \<or> new = [ListTablesOfFamily family] \<or>
             new = [AddTable \<lparr> Name = tableName, Family = family \<rparr>] \<or>
             new = [ListTablesOfFamily family,
                    AddTable \<lparr> Name = tableName, Family = family \<rparr>]))"
proof -
  obtain ts where ts: "tables cache1 family = Some ts" "map_of ts tableName = Some h1"
    using MutableNftablesTable_cached [OF assms(1)] by blast
  have second: "h2 = h1" "cache2 = cache1"
    using MutableNftablesTable_hit [OF ts, of listed' added'] assms(2) by simp_all
  show ?thesis
    using ts second MutableNftablesTable_calls [OF assms(1)] by simp
qed

theorem MutableNftablesTable_twice_witness:
  "MutableNftablesTable (Some [\<lparr> Name = ''filter'', Family = TableFamilyIPv4 \<rparr>]) (\<lambda>t. t)
       TableFamilyIPv4 ''dns'' ex_cache =
     (\<lparr> table = \<lparr> Name = ''dns'', Family = TableFamilyIPv4 \<rparr>, setCache = [] \<rparr>,
      ex_cache\<lparr>tables := (tables ex_cache)(TableFamilyIPv4 \<mapsto>
                  [(''filter'', \<lparr> table = \<lparr> Name = ''filter'', Family = TableFamilyIPv4 \<rparr>,
                                 setCache = [] \<rparr>),
                   (''dns'', \<lparr> table = \<lparr> Name = ''dns'', Family = TableFamilyIPv4 \<rparr>,
                              setCache = [] \<rparr>)]),
                NftableConnection :=
                  [ListTablesOfFamily TableFamilyIPv4,
                   AddTable \<lparr> Name = ''dns'', Family = TableFamilyIPv4 \<rparr>]\<rparr>) \<and>
   MutableNftablesTable None (\<lambda>t. t) TableFamilyIPv4 ''dns''
       (snd (MutableNftablesTable (Some [\<lparr> Name = ''filter'', Family = TableFamilyIPv4 \<rparr>])
               (\<lambda>t. t) TableFamilyIPv4 ''dns'' ex_cache)) =
     MutableNftablesTable (Some [\<lparr> Name = ''filter'', Family = TableFamilyIPv4 \<rparr>]) (\<lambda>t. t)
       TableFamilyIPv4 ''dns'' ex_cache"
  using MutableNftablesTable_twice [OF prod.collapse [symmetric] prod.collapse [symmetric],
      where listed = "Some [\<lparr> Name = ''filter'', Family = TableFamilyIPv4 \<rparr>]"
        and added = "\<lambda>t. t" and family = TableFamilyIPv4 and tableName = "''dns''"
        and cache = ex_cache and listed' = None and added' = "\<lambda>t. t"]
  by (simp add: MutableNftablesTable_def ex_cache_def Let_def)


subsection \<open>The connection pool\<close>

lemma gc_fields:
  "self (gc now c) = self c" "CreateTimepoint (gc now c) = CreateTimepoint c"
  "tables (gc now c) = tables c" "NftableConnection (gc now c) = NftableConnection c"
  "HasNftableConnectionError (gc now c) = HasNftableConnectionError c"
  by (simp_all add: gc_def split: option.splits)

lemma NewCache_loop_result:
  assumes "NewCache_loop cfg clk q s = (r, s')"
  shows "\<exists>pre post. q = pre @ post \<and>
           (\<forall>i<length pre. cacheExpiredDuration cfg
                 < time_Since (clk (tick s + i)) (CreateTimepoint (pre ! i))) \<and>
           trace s' = trace s @ map (\<lambda>c. Go_destroy (self c)) pre \<and>
           next_self s' = next_self s \<and>
           (case post of
              [] \<Rightarrow> r = None \<and> cacheList s' = [] \<and> tick s' = tick s + length pre
            | h # rest \<Rightarrow>
                \<not> cacheExpiredDuration cfg
                    < time_Since (clk (tick s + length pre)) (CreateTimepoint h) \<and>
                r = Some (gc (clk (tick s + length pre + 1)) h) \<and>
                cacheList s' = rest \<and> tick s' = tick s + length pre + 2)"
  using assms
proof (induction q arbitrary: s)
  case Nil
  then show ?case by auto
next
  case (Cons cacheHead q)
  show ?case
  proof (cases "cacheExpiredDuration cfg < time_Since (clk (tick s)) (CreateTimepoint cacheHead)")
    case False
    with Cons.prems show ?thesis
      by (intro exI [of _ "[]"] exI [of _ "cacheHead # q"]) auto
  next
    case True
    let ?s1 = "s\<lparr>cacheList := q, tick := Suc (tick s),
                  trace := trace s @ [Go_destroy (self cacheHead)]\<rparr>"
    from True Cons.prems have "NewCache_loop cfg clk q ?s1 = (r, s')"
      by simp
    from Cons.IH [OF this] obtain pre post where
      q: "q = pre @ post" and
      ex: "\<forall>i<length pre. cacheExpiredDuration cfg
             < time_Since (clk (tick ?s1 + i)) (CreateTimepoint (pre ! i))" and
      tr: "trace s' = trace ?s1 @ map (\<lambda>c. Go_destroy (self c)) pre" and
      nx: "next_self s' = next_self ?s1" and
      rest: "(case post of
              [] \<Rightarrow> r = None \<and> cacheList s' = [] \<and> tick s' = tick ?s1 + length pre
            | h # rest \<Rightarrow>
                \<not> cacheExpiredDuration cfg
                    < time_Since (clk (tick ?s1 + length pre)) (CreateTimepoint h) \<and>
                r = Some (gc (clk (tick ?s1 + length pre + 1)) h) \<and>
                cacheList s' = rest \<and> tick s' = tick ?s1 + length pre + 2)"
      by blast
    have ex': "\<forall>i<length (cacheHead # pre). cacheExpiredDuration cfg
             < time_Since (clk (tick s + i)) (CreateTimepoint ((cacheHead # pre) ! i))"
    proof (intro allI impI)
      fix i assume "i < length (cacheHead # pre)"
      then show "cacheExpiredDuration cfg
             < time_Since (clk (tick s + i)) (CreateTimepoint ((cacheHead # pre) ! i))"
        using True ex by (cases i) auto
    qed
    show ?thesis
      using q ex' tr nx rest
      by (intro exI [of _ "cacheHead # pre"] exI [of _ post]) (auto split: list.splits)
  qed
qed

lemma NewCache_cases:
  assumes "NewCache cfg clk opened s = (r, s')"
  shows "\<exists>pre post. cacheList s = pre @ post \<and>
           (case post of
              h # rest \<Rightarrow>
                r = Inr (gc (clk (tick s + length pre + 1)) h) \<and>
                cacheList s' = rest \<and> next_self s' = next_self s
            | [] \<Rightarrow>
                cacheList s' = [] \<and>
                trace s' = trace s @ map (\<lambda>c. Go_destroy (self c)) pre @ [Call_openSystemNFTConn] \<and>
                (case opened of
                   Some err \<Rightarrow> r = Inl err \<and> next_self s' = next_self s
                 | None \<Rightarrow>
                     (\<exists>c. r = Inr c \<and> self c = next_self s) \<and>
                     next_self s' = Suc (next_self s)))"
proof -
  obtain r0 s0 where loop: "NewCache_loop cfg clk (cacheList s) s = (r0, s0)"
    by (cases "NewCache_loop cfg clk (cacheList s) s")
  from NewCache_loop_result [OF loop] obtain pre post where
    q: "cacheList s = pre @ post" and
    tr: "trace s0 = trace s @ map (\<lambda>c. Go_destroy (self c)) pre" and
    nx: "next_self s0 = next_self s" and
    rest: "(case post of
              [] \<Rightarrow> r0 = None \<and> cacheList s0 = []
            | h # rest \<Rightarrow>
                r0 = Some (gc (clk (tick s + length pre + 1)) h) \<and> cacheList s0 = rest)"
    by (fastforce split: list.splits)
  have "case post of
          h # rest \<Rightarrow>
            r = Inr (gc (clk (tick s + length pre + 1)) h) \<and>
            cacheList s' = rest \<and> next_self s' = next_self s
        | [] \<Rightarrow>
            cacheList s' = [] \<and>
            trace s' = trace s @ map (\<lambda>c. Go_destroy (self c)) pre @ [Call_openSystemNFTConn] \<and>
            (case opened of
               Some err \<Rightarrow> r = Inl err \<and> next_self s' = next_self s
             | None \<Rightarrow>
                 (\<exists>c. r = Inr c \<and> self c = next_self s) \<and>
                 next_self s' = Suc (next_self s))"
    using assms loop tr nx rest
    by (cases post) (auto simp: NewCache_def Let_def split: option.splits)
  with q show ?thesis
    by blast
qed

text \<open>
  C2: \<^verbatim>\<open>NewCache\<close> pops the entries \<open>pre\<close> from the front of the queue, each of an age
  above the time to live at the reading of the clock taken for it, and spawns a teardown
  for each of them. If an entry \<open>h\<close> follows, its age at its reading is within the time
  to live, and the connection returned is \<open>h\<close> after its \<^verbatim>\<open>gc\<close> pass, with the rest of the
  queue left in the pool and no connection opened. Only if the whole queue was popped is
  a connection opened: its error is returned, or else a new connection.
\<close>

theorem NewCache_within_ttl:
  assumes "NewCache cfg clk opened s = (r, s')"
  shows "\<exists>pre post. cacheList s = pre @ post \<and>
           (\<forall>i<length pre. cacheExpiredDuration cfg
                 < time_Since (clk (tick s + i)) (CreateTimepoint (pre ! i))) \<and>
           (case post of
              h # rest \<Rightarrow>
                time_Since (clk (tick s + length pre)) (CreateTimepoint h)
                  \<le> cacheExpiredDuration cfg \<and>
                r = Inr (gc (clk (tick s + length pre + 1)) h) \<and>
                self (gc (clk (tick s + length pre + 1)) h) = self h \<and>
                CreateTimepoint (gc (clk (tick s + length pre + 1)) h) = CreateTimepoint h \<and>
                cacheList s' = rest \<and>
                trace s' = trace s @ map (\<lambda>c. Go_destroy (self c)) pre \<and>
                next_self s' = next_self s
            | [] \<Rightarrow>
                cacheList s' = [] \<and>
                trace s' = trace s @ map (\<lambda>c. Go_destroy (self c)) pre @ [Call_openSystemNFTConn] \<and>
                (case opened of
                   Some err \<Rightarrow> r = Inl err \<and> next_self s' = next_self s
                 | None \<Rightarrow>
                     r = Inr \<lparr> self = next_self s, tables = Map.empty,
                               recentlyIPCache = lru_New (setLruMaxCount cfg),
                               CreateTimepoint = clk (tick s + length pre),
                               NftableConnection = [],
                               HasNftableConnectionError = False \<rparr> \<and>
                     next_self s' = Suc (next_self s)))"
proof -
  obtain r0 s0 where loop: "NewCache_loop cfg clk (cacheList s) s = (r0, s0)"
    by (cases "NewCache_loop cfg clk (cacheList s) s")
  from NewCache_loop_result [OF loop] obtain pre post where
    q: "cacheList s = pre @ post" and
    ex: "\<forall>i<length pre. cacheExpiredDuration cfg
           < time_Since (clk (tick s + i)) (CreateTimepoint (pre ! i))" and
    tr: "trace s0 = trace s @ map (\<lambda>c. Go_destroy (self c)) pre" and
    nx: "next_self s0 = next_self s" and
    rest: "(case post of
              [] \<Rightarrow> r0 = None \<and> cacheList s0 = [] \<and> tick s0 = tick s + length pre
            | h # rest \<Rightarrow>
                \<not> cacheExpiredDuration cfg
                    < time_Since (clk (tick s + length pre)) (CreateTimepoint h) \<and>
                r0 = Some (gc (clk (tick s + length pre + 1)) h) \<and>
                cacheList s0 = rest \<and> tick s0 = tick s + length pre + 2)"
    by blast
  show ?thesis
  proof (rule exI [of _ pre], rule exI [of _ post], intro conjI)
    show "cacheList s = pre @ post"
      by (rule q)
    show "\<forall>i<length pre. cacheExpiredDuration cfg
            < time_Since (clk (tick s + i)) (CreateTimepoint (pre ! i))"
      by (rule ex)
    show "case post of
            [] \<Rightarrow>
              cacheList s' = [] \<and>
              trace s' = trace s @ map (\<lambda>c. Go_destroy (self c)) pre @ [Call_openSystemNFTConn] \<and>
              (case opened of
                 Some err \<Rightarrow> r = Inl err \<and> next_self s' = next_self s
               | None \<Rightarrow>
                   r = Inr \<lparr> self = next_self s, tables = Map.empty,
                             recentlyIPCache = lru_New (setLruMaxCount cfg),
                             CreateTimepoint = clk (tick s + length pre),
                             NftableConnection = [],
                             HasNftableConnectionError = False \<rparr> \<and>
                   next_self s' = Suc (next_self s))
          | h # rest \<Rightarrow>
              time_Since (clk (tick s + length pre)) (CreateTimepoint h)
                \<le> cacheExpiredDuration cfg \<and>
              r = Inr (gc (clk (tick s + length pre + 1)) h) \<and>
              self (gc (clk (tick s + length pre + 1)) h) = self h \<and>
              CreateTimepoint (gc (clk (tick s + length pre + 1)) h) = CreateTimepoint h \<and>
              cacheList s' = rest \<and>
              trace s' = trace s @ map (\<lambda>c. Go_destroy (self c)) pre \<and>
              next_self s' = next_self s"
    proof (cases post)
      case Nil
      with rest have "r0 = None" "cacheList s0 = []" "tick s0 = tick s + length pre"
        by simp_all
      with assms loop tr nx Nil show ?thesis
        by (auto simp: NewCache_def Let_def split: option.splits)
    next
      case (Cons h rest')
      with rest have "r0 = Some (gc (clk (tick s + length pre + 1)) h)" "cacheList s0 = rest'"
        "\<not> cacheExpiredDuration cfg < time_Since (clk (tick s + length pre)) (CreateTimepoint h)"
        by simp_all
      with assms loop tr nx Cons show ?thesis
        by (auto simp: NewCache_def gc_fields)
    qed
  qed
qed

theorem NewCache_within_ttl_witness:
  "NewCache ttl100_config ex_clk None ex_pool =
     (Inr (gc 1002 (ex_cache\<lparr>self := 1, CreateTimepoint := 950\<rparr>)),
      ex_pool\<lparr>cacheList := [ex_cache\<lparr>self := 2, CreateTimepoint := 20\<rparr>], tick := 3,
               trace := [Go_destroy 0]\<rparr>) \<and>
   time_Since 1001 950 \<le> cacheExpiredDuration ttl100_config \<and>
   cacheExpiredDuration ttl100_config < time_Since 1000 10"
  using NewCache_within_ttl [OF prod.collapse [symmetric],
      where cfg = ttl100_config and clk = ex_clk and opened = None and s = ex_pool]
  by (simp add: NewCache_def ttl100_config_def default_config_def ex_clk_def ex_pool_def
        ex_cache_def time_Since_def time_Sub_def maxDuration_def minDuration_def)


lemma ClearCache_loop_result:
  "cacheList (ClearCache_loop q s) = [] \<and> next_self (ClearCache_loop q s) = next_self s"
  by (induction q arbitrary: s) auto

lemma CloseCache_result:
  "next_self (CloseCache cfg clk flushed cache s) = next_self s \<and>
   (cacheList (CloseCache cfg clk flushed cache s) = cacheList s \<or>
    (\<exists>c. self c = self cache \<and> cacheList (CloseCache cfg clk flushed cache s) = cacheList s @ [c]))"
  by (auto simp: CloseCache_def Let_def)

lemma NewCache_pool_inv:
  assumes "pool_inv held s" and "NewCache cfg clk opened s = (r, s')"
  shows "case r of Inl err \<Rightarrow> pool_inv held s' | Inr c \<Rightarrow> pool_inv (self c # held) s'"
proof -
  from NewCache_cases [OF assms(2)] obtain pre post where
    q: "cacheList s = pre @ post" and
    rest: "(case post of
              h # rest \<Rightarrow>
                r = Inr (gc (clk (tick s + length pre + 1)) h) \<and>
                cacheList s' = rest \<and> next_self s' = next_self s
            | [] \<Rightarrow>
                cacheList s' = [] \<and>
                (case opened of
                   Some err \<Rightarrow> r = Inl err \<and> next_self s' = next_self s
                 | None \<Rightarrow>
                     (\<exists>c. r = Inr c \<and> self c = next_self s) \<and>
                     next_self s' = Suc (next_self s)))"
    by (fastforce split: list.splits option.splits)
  show ?thesis
  proof (cases post)
    case Nil
    with rest assms(1) q show ?thesis
      by (cases opened) (auto simp: pool_inv_def less_Suc_eq)
  next
    case (Cons h rest')
    with rest assms(1) q show ?thesis
      by (auto simp: pool_inv_def gc_fields)
  qed
qed

lemma NewCache_other:
  assumes "NewCache cfg clk opened s = (r, s')"
    and "p \<notin> self ` set (cacheList s)" and "p < next_self s"
  shows "p \<notin> self ` set (cacheList s') \<and> p < next_self s' \<and> (\<forall>c. r = Inr c \<longrightarrow> self c \<noteq> p)"
proof -
  from NewCache_cases [OF assms(1)] obtain pre post where
    q: "cacheList s = pre @ post" and
    rest: "(case post of
              h # rest \<Rightarrow>
                r = Inr (gc (clk (tick s + length pre + 1)) h) \<and>
                cacheList s' = rest \<and> next_self s' = next_self s
            | [] \<Rightarrow>
                cacheList s' = [] \<and>
                (case opened of
                   Some err \<Rightarrow> r = Inl err \<and> next_self s' = next_self s
                 | None \<Rightarrow>
                     (\<exists>c. r = Inr c \<and> self c = next_self s) \<and>
                     next_self s' = Suc (next_self s)))"
    by (fastforce split: list.splits option.splits)
  show ?thesis
  proof (cases post)
    case Nil
    with rest assms(2,3) q show ?thesis
      by (cases opened) auto
  next
    case (Cons h rest')
    with rest assms(2,3) q show ?thesis
      by (auto simp: gc_fields)
  qed
qed

lemma CloseCache_pool_inv:
  assumes "pool_inv held s" and "self cache \<in> set held"
  shows "pool_inv (remove1 (self cache) held) (CloseCache cfg clk flushed cache s)"
proof -
  let ?s' = "CloseCache cfg clk flushed cache s"
  let ?held' = "remove1 (self cache) held"
  from assms(1) have d: "distinct held" and dp: "distinct (map self (cacheList s))"
    and disj: "set held \<inter> self ` set (cacheList s) = {}"
    and lt: "\<forall>p\<in>set held. p < next_self s" "\<forall>c\<in>set (cacheList s). self c < next_self s"
    by (auto simp: pool_inv_def)
  have sub: "set ?held' = set held - {self cache}" and d': "distinct ?held'"
    using d by simp_all
  have nx: "next_self ?s' = next_self s"
    using CloseCache_result [of cfg clk flushed cache s] by simp
  consider "cacheList ?s' = cacheList s"
    | c where "self c = self cache" "cacheList ?s' = cacheList s @ [c]"
    using CloseCache_result [of cfg clk flushed cache s] by blast
  then show ?thesis
  proof cases
    case 1
    have "set ?held' \<inter> self ` set (cacheList s) = {}"
      using disj sub by blast
    moreover have "\<forall>p\<in>set ?held'. p < next_self s"
      using lt(1) sub by blast
    ultimately show ?thesis
      using 1 d' dp lt(2) nx by (simp add: pool_inv_def) blast
  next
    case 2
    have "set ?held' \<inter> self ` set (cacheList s @ [c]) = {}"
      using disj sub 2(1) by auto
    moreover have "\<forall>p\<in>set ?held'. p < next_self s"
      using lt(1) sub by blast
    moreover have "self c \<notin> self ` set (cacheList s)"
      using disj assms(2) 2(1) by auto
    moreover have "self c < next_self s"
      using lt(1) assms(2) 2(1) by simp
    ultimately show ?thesis
      using 2 d' dp lt(2) nx by (simp add: pool_inv_def) blast
  qed
qed

lemma ClearCache_pool_inv: "pool_inv held s \<Longrightarrow> pool_inv held (ClearCache s)"
  using ClearCache_loop_result [of "cacheList s" s]
  by (simp add: pool_inv_def ClearCache_def)

lemma pool_run_inv:
  "pool_inv held s \<Longrightarrow> pool_run cfg clk calls held s = Some (got, held', s') \<Longrightarrow>
   pool_inv held' s'"
proof (induction calls arbitrary: held s got)
  case Nil
  then show ?case by simp
next
  case (Cons call calls)
  show ?case
  proof (cases call)
    case (Acquire opened)
    obtain r s1 where new: "NewCache cfg clk opened s = (r, s1)"
      by (cases "NewCache cfg clk opened s")
    from NewCache_pool_inv [OF Cons.prems(1) new] Cons.prems(2) Cons.IH new Acquire
    show ?thesis
      by (cases r) (auto split: option.splits)
  next
    case (Release cache flushed)
    from Cons.prems(2) Release have held: "self cache \<in> set held"
      and run: "pool_run cfg clk calls (remove1 (self cache) held)
                 (CloseCache cfg clk flushed cache s) = Some (got, held', s')"
      by (auto split: if_splits)
    from Cons.IH [OF CloseCache_pool_inv [OF Cons.prems(1) held] run] show ?thesis .
  next
    case Clear
    with Cons.prems(2) have "pool_run cfg clk calls held (ClearCache s) = Some (got, held', s')"
      by simp
    from Cons.IH [OF ClearCache_pool_inv [OF Cons.prems(1)] this] show ?thesis .
  qed
qed

lemma pool_run_never:
  "p \<notin> set held \<Longrightarrow> p \<notin> self ` set (cacheList s) \<Longrightarrow> p < next_self s \<Longrightarrow>
   pool_run cfg clk calls held s = Some (got, held', s') \<Longrightarrow> p \<notin> self ` set got"
proof (induction calls arbitrary: held s got)
  case Nil
  then show ?case by simp
next
  case (Cons call calls)
  show ?case
  proof (cases call)
    case (Acquire opened)
    obtain r s1 where new: "NewCache cfg clk opened s = (r, s1)"
      by (cases "NewCache cfg clk opened s")
    from NewCache_other [OF new Cons.prems(2,3)]
    have s1: "p \<notin> self ` set (cacheList s1)" "p < next_self s1"
      and r: "\<forall>c. r = Inr c \<longrightarrow> self c \<noteq> p"
      by simp_all
    show ?thesis
    proof (cases r)
      case (Inl err)
      with Cons.prems(1,4) Cons.IH [OF _ s1] new Acquire show ?thesis
        by auto
    next
      case (Inr c)
      with r have "p \<notin> set (self c # held)"
        using Cons.prems(1) by auto
      from Cons.IH [OF this s1] Cons.prems(4) new Acquire Inr r show ?thesis
        by (auto split: option.splits)
    qed
  next
    case (Release cache flushed)
    from Cons.prems(4) Release have held: "self cache \<in> set held"
      and run: "pool_run cfg clk calls (remove1 (self cache) held)
                 (CloseCache cfg clk flushed cache s) = Some (got, held', s')"
      by (auto split: if_splits)
    have "p \<notin> set (remove1 (self cache) held)"
      using Cons.prems(1) by (auto dest: notin_set_remove1)
    moreover have "p \<notin> self ` set (cacheList (CloseCache cfg clk flushed cache s))"
      using CloseCache_result [of cfg clk flushed cache s] Cons.prems(1,2) held by auto
    moreover have "p < next_self (CloseCache cfg clk flushed cache s)"
      using CloseCache_result [of cfg clk flushed cache s] Cons.prems(3) by simp
    ultimately show ?thesis
      using Cons.IH run by blast
  next
    case Clear
    have "p \<notin> self ` set (cacheList (ClearCache s))" "p < next_self (ClearCache s)"
      using ClearCache_loop_result [of "cacheList s" s] Cons.prems(3)
      by (simp_all add: ClearCache_def)
    with Cons.prems(1,4) Cons.IH Clear show ?thesis
      by auto
  qed
qed

lemma pool_inv_init: "pool_inv [] init_sys"
  by (simp add: pool_inv_def init_sys_def)

text \<open>
  C5: in a run of the pool from the start of the process, \<^verbatim>\<open>CloseCache\<close> of a connection
  that a worker holds first flushes it. If the flush fails, or the connection carries the
  error flag, or its age is above the time to live, the connection is torn down and the
  pool is as it was: the connection is not in it, and however the run goes on, no later
  \<^verbatim>\<open>NewCache\<close> returns a connection with its address. Otherwise the connection goes to
  the back of the queue, from the front of which \<^verbatim>\<open>NewCache\<close> pops.
\<close>

theorem CloseCache_discards_or_requeues:
  assumes "pool_run cfg clk before [] init_sys = Some (got, held, s)"
    and "self cache \<in> set held"
    and "pool_run cfg clk after (remove1 (self cache) held) (CloseCache cfg clk flushed cache s) =
           Some (got', held', s')"
  shows "if flushed \<noteq> None \<or> HasNftableConnectionError cache \<or>
            cacheExpiredDuration cfg < time_Since (clk (tick s)) (CreateTimepoint cache)
         then cacheList (CloseCache cfg clk flushed cache s) = cacheList s \<and>
              trace (CloseCache cfg clk flushed cache s) =
                trace s @ [Call_Flush (self cache) flushed, Call_destroy (self cache)] \<and>
              self cache \<notin> self ` set (cacheList (CloseCache cfg clk flushed cache s)) \<and>
              self cache \<notin> self ` set got'
         else cacheList (CloseCache cfg clk flushed cache s) =
                cacheList s @ [cache\<lparr>NftableConnection := NftableConnection cache @ [Flush]\<rparr>] \<and>
              trace (CloseCache cfg clk flushed cache s) =
                trace s @ [Call_Flush (self cache) flushed]"
proof -
  let ?s1 = "CloseCache cfg clk flushed cache s"
  have inv: "pool_inv held s"
    using pool_run_inv [OF pool_inv_init assms(1)] .
  then have d: "distinct held" and fresh: "self cache \<notin> self ` set (cacheList s)"
    and lt: "self cache < next_self s"
    using assms(2) by (auto simp: pool_inv_def)
  show ?thesis
  proof (cases "flushed \<noteq> None \<or> HasNftableConnectionError cache \<or>
      cacheExpiredDuration cfg < time_Since (clk (tick s)) (CreateTimepoint cache)")
    case True
    then have same: "cacheList ?s1 = cacheList s" "next_self ?s1 = next_self s"
      and tr: "trace ?s1 = trace s @ [Call_Flush (self cache) flushed, Call_destroy (self cache)]"
      by (auto simp: CloseCache_def Let_def)
    have "self cache \<notin> set (remove1 (self cache) held)"
      using d by simp
    from pool_run_never [OF this _ _ assms(3)] same fresh lt
    have "self cache \<notin> self ` set got'"
      by simp
    with True same tr fresh show ?thesis
      by simp
  next
    case False
    then show ?thesis
      by (simp add: CloseCache_def Let_def)
  qed
qed

theorem CloseCache_discards_or_requeues_witness:
  "pool_run ttl100_config ex_clk [Acquire None] [] init_sys =
     Some ([ex_conn 0 1000], [0], ex_held) \<and>
   cacheList (CloseCache ttl100_config ex_clk (Some ''EPIPE'') (ex_conn 0 1000) ex_held) = [] \<and>
   pool_run ttl100_config ex_clk [Acquire None] []
       (CloseCache ttl100_config ex_clk (Some ''EPIPE'') (ex_conn 0 1000) ex_held) =
     Some ([ex_conn 1 1001], [1],
           \<lparr> cacheList = [], next_self = 2, tick = 2,
             trace = [Call_openSystemNFTConn, Call_Flush 0 (Some ''EPIPE''), Call_destroy 0,
                      Call_openSystemNFTConn] \<rparr>) \<and>
   cacheList (CloseCache ttl100_config ex_clk None (ex_conn 0 1000) ex_held) =
     [(ex_conn 0 1000)\<lparr>NftableConnection := [Flush]\<rparr>]"
  using CloseCache_discards_or_requeues [where cfg = ttl100_config and clk = ex_clk
      and before = "[Acquire None]" and got = "[ex_conn 0 1000]" and held = "[0]" and s = ex_held
      and cache = "ex_conn 0 1000" and flushed = "Some ''EPIPE''" and after = "[Acquire None]"
      and got' = "[ex_conn 1 1001]" and held' = "[1]"
      and s' = "\<lparr> cacheList = [], next_self = 2, tick = 2,
             trace = [Call_openSystemNFTConn, Call_Flush 0 (Some ''EPIPE''), Call_destroy 0,
                      Call_openSystemNFTConn] \<rparr>"]
    CloseCache_discards_or_requeues [where cfg = ttl100_config and clk = ex_clk
      and before = "[Acquire None]" and got = "[ex_conn 0 1000]" and held = "[0]" and s = ex_held
      and cache = "ex_conn 0 1000" and flushed = None and after = "[]"
      and got' = "[]" and held' = "[]"
      and s' = "CloseCache ttl100_config ex_clk None (ex_conn 0 1000) ex_held"]
  by (simp add: NewCache_def CloseCache_def ttl100_config_def default_config_def ex_clk_def
        ex_conn_def ex_held_def init_sys_def time_Since_def time_Sub_def maxDuration_def
        minDuration_def Let_def)

subsection \<open>The dispatcher\<close>

lemma serve_rules_result:
  assumes m: "Rules m family = Some ruleSet" "family \<in> set families"
  shows "set rules \<subseteq> set (RuleAddElement ruleSet) \<Longrightarrow>
         serve_rules ap answer family rules (e, n, c, s) = (e', n', c', s') \<Longrightarrow>
         ((\<forall>rule a family c. recentlyIPCache (snd (ap rule a family c)) = recentlyIPCache c) \<longrightarrow>
            recentlyIPCache c' = recentlyIPCache c) \<and>
         tick s' = tick s \<and> cacheList s' = cacheList s \<and> next_self s' = next_self s \<and>
         (\<exists>new. trace s' = trace s @ new \<and>
            (\<forall>ev\<in>set new. applier_call m answer families ev) \<and>
            e' = (e \<or> (\<exists>ev\<in>set new. applier_failed ev)) \<and>
            n' = n + of_nat (length (filter applier_applied new)))"
proof (induction rules arbitrary: e n c s)
  case Nil
  then show ?case by auto
next
  case (Cons rule rules)
  obtain err ignored c1 where ap: "ap rule answer family c = ((err, ignored), c1)"
    by (metis prod.exhaust)
  let ?ev = "Call_ServeDNS rule family answer err ignored"
  let ?s1 = "s\<lparr>trace := trace s @ [?ev]\<rparr>"
  let ?e1 = "e \<or> err \<noteq> None"
  let ?n1 = "if err = None \<and> \<not> ignored then n + 1 else n"
  have c1: "(\<forall>rule a family c. recentlyIPCache (snd (ap rule a family c)) = recentlyIPCache c) \<longrightarrow>
              recentlyIPCache c1 = recentlyIPCache c"
    using ap by (metis snd_conv)
  have step: "serve_rules ap answer family (rule # rules) (e, n, c, s) =
              serve_rules ap answer family rules (?e1, ?n1, c1, ?s1)"
    by (simp add: ap Let_def)
  have ev: "applier_call m answer families ?ev"
    using m Cons.prems(1) by simp
  from Cons.prems(2) step
  have "serve_rules ap answer family rules (?e1, ?n1, c1, ?s1) = (e', n', c', s')"
    by simp
  from Cons.IH [OF _ this] Cons.prems(1) obtain new where
    IH: "(\<forall>rule a family c. recentlyIPCache (snd (ap rule a family c)) = recentlyIPCache c) \<longrightarrow>
           recentlyIPCache c' = recentlyIPCache c1"
      "tick s' = tick s" "cacheList s' = cacheList s" "next_self s' = next_self s"
      "trace s' = trace s @ ?ev # new" "\<forall>ev\<in>set new. applier_call m answer families ev"
      "e' = (?e1 \<or> (\<exists>ev\<in>set new. applier_failed ev))"
      "n' = ?n1 + of_nat (length (filter applier_applied new))"
    by auto
  show ?case
  proof (intro conjI)
    show "\<exists>new. trace s' = trace s @ new \<and>
            (\<forall>ev\<in>set new. applier_call m answer families ev) \<and>
            e' = (e \<or> (\<exists>ev\<in>set new. applier_failed ev)) \<and>
            n' = n + of_nat (length (filter applier_applied new))"
      using IH(5-8) ev by (intro exI [of _ "?ev # new"]) auto
  qed (use IH c1 in simp_all)
qed

lemma serve_families_result:
  "set fs \<subseteq> set families \<Longrightarrow>
   serve_families ap m answer fs (e, n, c, s) = (e', n', c', s') \<Longrightarrow>
   ((\<forall>rule a family c. recentlyIPCache (snd (ap rule a family c)) = recentlyIPCache c) \<longrightarrow>
      recentlyIPCache c' = recentlyIPCache c) \<and>
   tick s' = tick s \<and> cacheList s' = cacheList s \<and> next_self s' = next_self s \<and>
   (\<exists>new. trace s' = trace s @ new \<and>
      (\<forall>ev\<in>set new. applier_call m answer families ev) \<and>
      e' = (e \<or> (\<exists>ev\<in>set new. applier_failed ev)) \<and>
      n' = n + of_nat (length (filter applier_applied new)))"
proof (induction fs arbitrary: e n c s)
  case Nil
  then show ?case by auto
next
  case (Cons family fs)
  show ?case
  proof (cases "Rules m family")
    case None
    with Cons.prems have "serve_families ap m answer fs (e, n, c, s) = (e', n', c', s')"
      by simp
    from Cons.IH [OF _ this] Cons.prems(1) show ?thesis
      by simp
  next
    case (Some ruleSet)
    obtain e1 n1 c1 s1 where
      rules: "serve_rules ap answer family (RuleAddElement ruleSet) (e, n, c, s) = (e1, n1, c1, s1)"
      by (metis prod.exhaust)
    have fam: "family \<in> set families"
      using Cons.prems(1) by simp
    from serve_rules_result [OF Some fam subset_refl rules] obtain new1 where
      r1: "(\<forall>rule a family c. recentlyIPCache (snd (ap rule a family c)) = recentlyIPCache c) \<longrightarrow>
             recentlyIPCache c1 = recentlyIPCache c"
        "tick s1 = tick s" "cacheList s1 = cacheList s" "next_self s1 = next_self s"
        "trace s1 = trace s @ new1" "\<forall>ev\<in>set new1. applier_call m answer families ev"
        "e1 = (e \<or> (\<exists>ev\<in>set new1. applier_failed ev))"
        "n1 = n + of_nat (length (filter applier_applied new1))"
      by blast
    from Cons.prems(2) Some rules
    have "serve_families ap m answer fs (e1, n1, c1, s1) = (e', n', c', s')"
      by simp
    from Cons.IH [OF _ this] Cons.prems(1) obtain new2 where
      r2: "(\<forall>rule a family c. recentlyIPCache (snd (ap rule a family c)) = recentlyIPCache c) \<longrightarrow>
             recentlyIPCache c' = recentlyIPCache c1"
        "tick s' = tick s1" "cacheList s' = cacheList s1" "next_self s' = next_self s1"
        "trace s' = trace s1 @ new2" "\<forall>ev\<in>set new2. applier_call m answer families ev"
        "e' = (e1 \<or> (\<exists>ev\<in>set new2. applier_failed ev))"
        "n' = n1 + of_nat (length (filter applier_applied new2))"
      by auto
    show ?thesis
    proof (intro conjI)
      show "\<exists>new. trace s' = trace s @ new \<and>
            (\<forall>ev\<in>set new. applier_call m answer families ev) \<and>
            e' = (e \<or> (\<exists>ev\<in>set new. applier_failed ev)) \<and>
            n' = n + of_nat (length (filter applier_applied new))"
        using r1(5-8) r2(5-8) by (intro exI [of _ "new1 @ new2"]) auto
    qed (use r1 r2 in simp_all)
  qed
qed

lemma recency_entry_cong:
  "recentlyIPCache c = recentlyIPCache c' \<Longrightarrow> recency_entry c = recency_entry c'"
  by (rule ext) (simp add: recency_entry_def)

lemma LruUpdateIp_cong:
  "recentlyIPCache c = recentlyIPCache c' \<Longrightarrow>
   recentlyIPCache (LruUpdateIp cfg now answer n c) = recentlyIPCache (LruUpdateIp cfg now answer n c')"
  by (cases answer) (auto simp: LruUpdateIp_def split: option.splits prod.splits)

lemma LruIgnoreIp_entries:
  "recency_entry (snd (LruIgnoreIp cfg answer cache)) = recency_entry cache"
  by (rule ext, cases answer)
     (auto simp: LruIgnoreIp_def recency_entry_def lru_Get_def map_of_lru_touch
           split: option.splits)

lemma resolve_families_result:
  "resolve_families cfg answer (cache, s) = (fams, cache1, s1) \<Longrightarrow>
   recency_entry cache1 = recency_entry cache \<and> tick s1 = tick s \<and>
   cacheList s1 = cacheList s \<and> next_self s1 = next_self s"
  using LruIgnoreIp_entries [of cfg answer cache]
  by (cases answer) (auto simp: resolve_families_def split: prod.splits)

text \<open>
  C1: take a rule applier that leaves the recency cache of the connection alone, and an
  answer record that the dispatcher processes, that is, one for which it has resolved
  table families, with the connection \<open>cache_i\<close> as the check of the recency cache left
  it. The turn of the loop for this record, its own pass, makes the calls \<open>calls\<close>. If
  one of the appliers invoked returned an error, the recency cache is exactly as the check left it,
  every address has the entry it had before the turn (or none, as before), and
  \<^verbatim>\<open>LruUpdateIp\<close> is not called. If none returned an error, \<^verbatim>\<open>LruUpdateIp\<close> is called
  exactly once, for this record and with the count of the appliers that applied it,
  which may be zero, and the recency cache is what that call makes of it.
\<close>

theorem ServeWorker_answer_recency:
  assumes frame: "\<forall>rule a family c. recentlyIPCache (snd (ap rule a family c)) = recentlyIPCache c"
    and dispatched: "resolve_families cfg answer (cache, s) = (Some tableFamilies, cache_i, s_i)"
    and turn: "ServeWorker_answer cfg clk ap m answer (cache, s) = (cache', s')"
  shows "\<exists>calls. trace s' = trace s_i @ calls \<and>
           (if \<exists>ev\<in>set calls. applier_failed ev
            then recentlyIPCache cache' = recentlyIPCache cache_i \<and>
                 recency_entry cache' = recency_entry cache \<and>
                 filter is_LruUpdateIp calls = []
            else filter is_LruUpdateIp calls =
                   [Call_LruUpdateIp answer (of_nat (length (filter applier_applied calls)))] \<and>
                 recentlyIPCache cache' =
                   recentlyIPCache
                     (LruUpdateIp cfg (clk (tick s)) answer
                        (of_nat (length (filter applier_applied calls))) cache_i))"
proof -
  obtain e n c2 s2 where
    fan: "serve_families ap m answer tableFamilies (False, 0, cache_i, s_i) = (e, n, c2, s2)"
    by (metis prod.exhaust)
  from serve_families_result [OF subset_refl fan] frame obtain new where
    r: "recentlyIPCache c2 = recentlyIPCache cache_i" "tick s2 = tick s_i"
      "trace s2 = trace s_i @ new" "\<forall>ev\<in>set new. applier_call m answer tableFamilies ev"
      "e = (\<exists>ev\<in>set new. applier_failed ev)"
      "n = of_nat (length (filter applier_applied new))"
    by auto
  have noupd: "filter is_LruUpdateIp new = []" "filter applier_applied [Call_LruUpdateIp answer n] = []"
      "\<not> applier_failed (Call_LruUpdateIp answer n)"
    using r(4) by (auto simp: filter_empty_conv elim!: applier_call.elims)
  from resolve_families_result [OF dispatched]
  have pre: "recency_entry cache_i = recency_entry cache" "tick s_i = tick s"
    by simp_all
  show ?thesis
  proof (cases e)
    case True
    with turn dispatched fan have "cache' = c2" "s' = s2"
      by (simp_all add: ServeWorker_answer_def)
    with True r noupd pre recency_entry_cong [OF r(1)] show ?thesis
      by (intro exI [of _ new]) auto
  next
    case False
    with turn dispatched fan
    have res: "cache' = LruUpdateIp cfg (clk (tick s2)) answer n c2"
      "s' = s2\<lparr>tick := Suc (tick s2), trace := trace s2 @ [Call_LruUpdateIp answer n]\<rparr>"
      by (simp_all add: ServeWorker_answer_def)
    have "recentlyIPCache cache' = recentlyIPCache (LruUpdateIp cfg (clk (tick s)) answer n cache_i)"
      using LruUpdateIp_cong [OF r(1)] res(1) r(2) pre(2) by simp
    with False r noupd res show ?thesis
      by (intro exI [of _ "new @ [Call_LruUpdateIp answer n]"]) auto
  qed
qed

theorem ServeWorker_answer_recency_witness:
  "ServeWorker_answer default_config ex_clk ex_applier (ex_handler rule_bad) ex_answer
       (ex_cache, init_sys) =
     (ex_cache\<lparr>HasNftableConnectionError := True\<rparr>,
      init_sys\<lparr>trace :=
        [Call_LruIgnoreIp ex_answer False,
         Call_ServeDNS rule_ok TableFamilyIPv4 ex_answer None False,
         Call_ServeDNS rule_bad TableFamilyINet ex_answer (Some ''ENOENT'') False]\<rparr>) \<and>
   ServeWorker_answer default_config ex_clk ex_applier (ex_handler rule_ok) ex_answer
       (ex_cache, init_sys) =
     (ex_cache\<lparr>recentlyIPCache := Some (ex_lru\<lparr>lru_items :=
         [(''1.2.3.4'', \<lparr> ExpireTime = 100, ApplyCount = 3 \<rparr>),
          (''::1'', \<lparr> ExpireTime = 50, ApplyCount = 1 \<rparr>)]\<rparr>)\<rparr>,
      init_sys\<lparr>tick := 1, trace :=
        [Call_LruIgnoreIp ex_answer False,
         Call_ServeDNS rule_ok TableFamilyIPv4 ex_answer None False,
         Call_ServeDNS rule_ok TableFamilyINet ex_answer None False,
         Call_LruUpdateIp ex_answer 2]\<rparr>)"
  using ServeWorker_answer_recency [where ap = ex_applier and cfg = default_config
      and answer = ex_answer and cache = ex_cache and s = init_sys
      and tableFamilies = "[TableFamilyIPv4, TableFamilyINet, TableFamilyBridge]"
      and cache_i = ex_cache and s_i = "init_sys\<lparr>trace := [Call_LruIgnoreIp ex_answer False]\<rparr>"
      and clk = ex_clk and m = "ex_handler rule_bad", OF _ _ prod.collapse [symmetric]]
    ServeWorker_answer_recency [where ap = ex_applier and cfg = default_config
      and answer = ex_answer and cache = ex_cache and s = init_sys
      and tableFamilies = "[TableFamilyIPv4, TableFamilyINet, TableFamilyBridge]"
      and cache_i = ex_cache and s_i = "init_sys\<lparr>trace := [Call_LruIgnoreIp ex_answer False]\<rparr>"
      and clk = ex_clk and m = "ex_handler rule_ok", OF _ _ prod.collapse [symmetric]]
  by (simp add: ServeWorker_answer_def resolve_families_def LruIgnoreIp_def LruUpdateIp_def
        lru_Get_def lru_touch_def lru_assign_def ex_applier_def ex_handler_def ex_answer_def
        ex_cache_def ex_lru_def init_sys_def default_config_def rule_ok_def rule_bad_def
        ex_clk_def word_sle_eq)

lemma triple_collapse: "x = (fst x, fst (snd x), snd (snd x))"
  by simp

text \<open>
  C7, as amended: in the turn of the loop for an answer record, a record that is not an
  address record resolves no families, and the turn changes nothing and calls nothing;
  an address record that \<^verbatim>\<open>LruIgnoreIp\<close> asks to ignore resolves no families either, and
  the turn is that one check of the recency cache; an address record that it does not
  ask to ignore resolves exactly the families IPv4, inet, bridge if it is an A record and
  IPv6, inet, bridge if it is an AAAA record, and every applier invoked in the turn is
  invoked for this record, for one of these families and with a rule configured for it.
\<close>

theorem resolve_families_by_kind:
  assumes "resolve_families cfg answer (cache, s) = (tableFamilies, cache_i, s_i)"
    and "ServeWorker_answer cfg clk ap m answer (cache, s) = (cache', s')"
  shows "(rr_ip answer = None \<longrightarrow> tableFamilies = None \<and> cache' = cache \<and> s' = s) \<and>
         (rr_ip answer \<noteq> None \<and> fst (LruIgnoreIp cfg answer cache) \<longrightarrow>
            tableFamilies = None \<and> cache' = snd (LruIgnoreIp cfg answer cache) \<and>
            s' = s\<lparr>trace := trace s @ [Call_LruIgnoreIp answer True]\<rparr>) \<and>
         (rr_ip answer \<noteq> None \<and> \<not> fst (LruIgnoreIp cfg answer cache) \<longrightarrow>
            (\<exists>family.
               tableFamilies = Some [family, TableFamilyINet, TableFamilyBridge] \<and>
               (\<forall>name a. answer = RR_A name a \<longrightarrow> family = TableFamilyIPv4) \<and>
               (\<forall>name a. answer = RR_AAAA name a \<longrightarrow> family = TableFamilyIPv6) \<and>
               (\<exists>calls. trace s' = trace s @ Call_LruIgnoreIp answer False # calls \<and>
                  (\<forall>ev\<in>set calls.
                     is_LruUpdateIp ev \<or>
                     applier_call m answer [family, TableFamilyINet, TableFamilyBridge] ev))))"
proof -
  have other: "rr_ip answer = None \<longrightarrow> tableFamilies = None \<and> cache' = cache \<and> s' = s"
  proof
    assume "rr_ip answer = None"
    then obtain name where "answer = RR_Other name"
      by (cases answer) auto
    with assms show "tableFamilies = None \<and> cache' = cache \<and> s' = s"
      by (simp add: resolve_families_def ServeWorker_answer_def)
  qed
  have ignored: "rr_ip answer \<noteq> None \<and> fst (LruIgnoreIp cfg answer cache) \<longrightarrow>
            tableFamilies = None \<and> cache' = snd (LruIgnoreIp cfg answer cache) \<and>
            s' = s\<lparr>trace := trace s @ [Call_LruIgnoreIp answer True]\<rparr>"
    using assms
    by (cases answer) (auto simp: resolve_families_def ServeWorker_answer_def split: prod.splits)
  have served: "rr_ip answer \<noteq> None \<and> \<not> fst (LruIgnoreIp cfg answer cache) \<longrightarrow>
            (\<exists>family.
               tableFamilies = Some [family, TableFamilyINet, TableFamilyBridge] \<and>
               (\<forall>name a. answer = RR_A name a \<longrightarrow> family = TableFamilyIPv4) \<and>
               (\<forall>name a. answer = RR_AAAA name a \<longrightarrow> family = TableFamilyIPv6) \<and>
               (\<exists>calls. trace s' = trace s @ Call_LruIgnoreIp answer False # calls \<and>
                  (\<forall>ev\<in>set calls.
                     is_LruUpdateIp ev \<or>
                     applier_call m answer [family, TableFamilyINet, TableFamilyBridge] ev)))"
  proof
    assume a: "rr_ip answer \<noteq> None \<and> \<not> fst (LruIgnoreIp cfg answer cache)"
    define family where
      "family = (case answer of RR_A name a \<Rightarrow> TableFamilyIPv4 | _ \<Rightarrow> TableFamilyIPv6)"
    let ?fams = "[family, TableFamilyINet, TableFamilyBridge]"
    from a assms(1) have fams: "tableFamilies = Some ?fams"
      and si: "s_i = s\<lparr>trace := trace s @ [Call_LruIgnoreIp answer False]\<rparr>"
      by (cases answer; auto simp: resolve_families_def family_def split: prod.splits)+
    obtain e n c2 s2 where
      fan: "serve_families ap m answer ?fams (False, 0, cache_i, s_i) = (e, n, c2, s2)"
      by (metis prod.exhaust)
    from serve_families_result [OF subset_refl fan] obtain new where
      new: "trace s2 = trace s_i @ new" "\<forall>ev\<in>set new. applier_call m answer ?fams ev"
      by auto
    have "\<exists>calls. trace s' = trace s @ Call_LruIgnoreIp answer False # calls \<and>
            (\<forall>ev\<in>set calls. is_LruUpdateIp ev \<or> applier_call m answer ?fams ev)"
    proof (cases e)
      case True
      with assms fams fan have "s' = s2"
        by (simp add: ServeWorker_answer_def)
      with new si show ?thesis
        by (intro exI [of _ new]) simp
    next
      case False
      with assms fams fan
      have "s' = s2\<lparr>tick := Suc (tick s2), trace := trace s2 @ [Call_LruUpdateIp answer n]\<rparr>"
        by (simp add: ServeWorker_answer_def)
      with new si show ?thesis
        by (intro exI [of _ "new @ [Call_LruUpdateIp answer n]"]) auto
    qed
    with fams show "\<exists>family.
               tableFamilies = Some [family, TableFamilyINet, TableFamilyBridge] \<and>
               (\<forall>name a. answer = RR_A name a \<longrightarrow> family = TableFamilyIPv4) \<and>
               (\<forall>name a. answer = RR_AAAA name a \<longrightarrow> family = TableFamilyIPv6) \<and>
               (\<exists>calls. trace s' = trace s @ Call_LruIgnoreIp answer False # calls \<and>
                  (\<forall>ev\<in>set calls.
                     is_LruUpdateIp ev \<or>
                     applier_call m answer [family, TableFamilyINet, TableFamilyBridge] ev))"
      using a by (intro exI [of _ family]) (auto simp: family_def)
  qed
  from other ignored served show ?thesis
    by (intro conjI)
qed

theorem resolve_families_by_kind_witness:
  "fst (resolve_families default_config ex_answer (ex_cache, init_sys)) =
     Some [TableFamilyIPv4, TableFamilyINet, TableFamilyBridge] \<and>
   fst (resolve_families default_config (RR_AAAA ''a.example.'' ''::1'') (ex_cache, init_sys)) =
     Some [TableFamilyIPv6, TableFamilyINet, TableFamilyBridge] \<and>
   ServeWorker_answer default_config ex_clk ex_applier (ex_handler rule_ok)
       (RR_Other ''a.example.'') (ex_cache, init_sys) = (ex_cache, init_sys)"
  using resolve_families_by_kind [OF triple_collapse prod.collapse [symmetric],
      where cfg = default_config and answer = ex_answer and cache = ex_cache and s = init_sys
        and clk = ex_clk and ap = ex_applier and m = "ex_handler rule_ok"]
    resolve_families_by_kind [OF triple_collapse prod.collapse [symmetric],
      where cfg = default_config and answer = "RR_AAAA ''a.example.'' ''::1''"
        and cache = ex_cache and s = init_sys
        and clk = ex_clk and ap = ex_applier and m = "ex_handler rule_ok"]
    resolve_families_by_kind [OF triple_collapse prod.collapse [symmetric],
      where cfg = default_config and answer = "RR_Other ''a.example.''"
        and cache = ex_cache and s = init_sys
        and clk = ex_clk and ap = ex_applier and m = "ex_handler rule_ok"]
  by (simp add: LruIgnoreIp_def lru_Get_def ex_answer_def ex_cache_def ex_lru_def
        default_config_def word_sle_eq prod_eq_iff)

text \<open>
  C7 as stated fails for an IPv4 address record whose attempt counter has reached the
  threshold: no family is resolved for it.
\<close>

theorem resolve_families_ignored_counterexample:
  "fst (resolve_families retry2_config (RR_A ''a.example.'' ''1.2.3.4'') (ex_cache, init_sys)) = None \<and>
   ServeWorker_answer retry2_config ex_clk ex_applier (ex_handler rule_ok)
       (RR_A ''a.example.'' ''1.2.3.4'') (ex_cache, init_sys) =
     (ex_cache,
      init_sys\<lparr>trace := [Call_LruIgnoreIp (RR_A ''a.example.'' ''1.2.3.4'') True]\<rparr>)"
  by (simp add: resolve_families_def ServeWorker_answer_def LruIgnoreIp_def lru_Get_def
        lru_touch_def retry2_config_def default_config_def ex_cache_def ex_lru_def
        init_sys_def word_sle_eq)

text \<open>
  C6: when \<^verbatim>\<open>NewCache\<close> fails, which it does only after it has popped the whole queue
  and with the error of opening a connection, \<^verbatim>\<open>ServeWorker\<close> returns that error to
  its caller in the state in which \<^verbatim>\<open>NewCache\<close> left the process: the events since the
  call are the teardowns of the entries popped and the attempt to open a connection, so
  no record has been looked at, no applier invoked and nothing flushed.
\<close>

theorem ServeWorker_connection_failure:
  assumes "NewCache cfg clk opened s = (Inl err, s')"
  shows "opened = Some err \<and>
         ServeWorker cfg clk ap opened flushed m r s = (Some err, s') \<and>
         cacheList s' = [] \<and> next_self s' = next_self s \<and>
         trace s' = trace s @ map (\<lambda>c. Go_destroy (self c)) (cacheList s) @ [Call_openSystemNFTConn]"
proof -
  from NewCache_cases [OF assms] obtain pre post where
    q: "cacheList s = pre @ post" and
    rest: "(case post of
              h # rest \<Rightarrow> Inl err = Inr (gc (clk (tick s + length pre + 1)) h)
            | [] \<Rightarrow>
                cacheList s' = [] \<and>
                trace s' = trace s @ map (\<lambda>c. Go_destroy (self c)) pre @ [Call_openSystemNFTConn] \<and>
                (case opened of
                   Some e \<Rightarrow> Inl err = Inl e \<and> next_self s' = next_self s
                 | None \<Rightarrow> (\<exists>c. Inl err = Inr c)))"
    by (fastforce split: list.splits option.splits)
  then have popped: "post = []" and failed: "opened = Some err"
    by (cases post; cases opened; simp)+
  have "ServeWorker cfg clk ap opened flushed m r s = (Some err, s')"
    using assms by (simp add: ServeWorker_def)
  with q rest popped failed show ?thesis
    by simp
qed

theorem ServeWorker_connection_failure_witness:
  "NewCache default_config ex_clk (Some ''EPERM'') init_sys =
     (Inl ''EPERM'', init_sys\<lparr>trace := [Call_openSystemNFTConn]\<rparr>) \<and>
   ServeWorker default_config ex_clk ex_applier (Some ''EPERM'') None (ex_handler rule_ok)
       \<lparr> Answer = [ex_answer] \<rparr> init_sys =
     (Some ''EPERM'', init_sys\<lparr>trace := [Call_openSystemNFTConn]\<rparr>)"
  using ServeWorker_connection_failure [where cfg = default_config and clk = ex_clk
      and opened = "Some ''EPERM''" and s = init_sys and err = "''EPERM''"
      and s' = "init_sys\<lparr>trace := [Call_openSystemNFTConn]\<rparr>" and ap = ex_applier
      and flushed = None and m = "ex_handler rule_ok" and r = "\<lparr> Answer = [ex_answer] \<rparr>"]
  by (simp add: NewCache_def init_sys_def)

subsection \<open>The entry point\<close>

lemma hasValidRecord_iff: "hasValidRecord answers = (\<exists>answer\<in>set answers. rr_ip answer \<noteq> None)"
  by (induction answers) (auto split: RR.splits)

text \<open>
  C10, as amended: when the plugin chain has produced a response without error and no
  record of its answer section is an address record, \<^verbatim>\<open>ServeDNS\<close> writes the response
  and does nothing else: the pool, the clock and the addresses handed out are as they
  were, and the one event is the write. It returns success if the write succeeded, and
  the error of the write with the code for a format error if it failed.
\<close>

theorem ServeDNS_without_address_record:
  assumes "\<forall>answer\<in>set (Answer r). rr_ip answer = None"
  shows "ServeDNS cfg clk ap opened flushed written m (rcode, None, Some r) s =
           (if written = None then (RcodeSuccess, None) else (RcodeFormatError, written),
            s\<lparr>trace := trace s @ [Call_WriteMsg r]\<rparr>)"
  using assms by (simp add: ServeDNS_def hasValidRecord_iff Let_def)

theorem ServeDNS_without_address_record_witness:
  "ServeDNS default_config ex_clk ex_applier None None None (ex_handler rule_ok)
       (0, None, Some \<lparr> Answer = [RR_Other ''a.example.''] \<rparr>) ex_pool =
     ((RcodeSuccess, None),
      ex_pool\<lparr>trace := [Call_WriteMsg \<lparr> Answer = [RR_Other ''a.example.''] \<rparr>]\<rparr>)"
  using ServeDNS_without_address_record [where r = "\<lparr> Answer = [RR_Other ''a.example.''] \<rparr>"
      and cfg = default_config and clk = ex_clk and ap = ex_applier and opened = None
      and flushed = None and written = None and m = "ex_handler rule_ok" and rcode = 0
      and s = ex_pool]
  by (simp add: ex_pool_def)

text \<open>
  C10 as stated fails where the write fails: the response has no address record, and
  \<^verbatim>\<open>ServeDNS\<close> returns the error, not success.
\<close>

theorem ServeDNS_write_failure_counterexample:
  "fst (ServeDNS default_config ex_clk ex_applier None None (Some ''EPIPE'') (ex_handler rule_ok)
          (0, None, Some \<lparr> Answer = [RR_Other ''a.example.''] \<rparr>) ex_pool) =
     (RcodeFormatError, Some ''EPIPE'') \<and>
   fst (ServeDNS default_config ex_clk ex_applier None None (Some ''EPIPE'') (ex_handler rule_ok)
          (0, None, Some \<lparr> Answer = [RR_Other ''a.example.''] \<rparr>) ex_pool) \<noteq>
     (RcodeSuccess, None)"
  by (simp add: ServeDNS_def Let_def RcodeFormatError_def RcodeSuccess_def)

end
